theory Spec2Isabelle
  imports Main
begin

section \<open>The definition model of \<^verbatim>\<open>optimizer.ts\<close>\<close>

text \<open>
  \<^verbatim>\<open>enum OptimizationKey\<close>: the twelve keys, in declaration order. The value of
  each member is the string of its own name.
\<close>

datatype OptimizationKey =
  outputMode | videoBitrate | audioBitrate | quality | colorSpace | fps
  | encoder | keyframeInterval | encoderPreset | profile | tune | audioTrackIndex

text \<open>\<^verbatim>\<open>Object.values(OptimizationKey)\<close>: the members in declaration order.\<close>

definition OptimizationKey_values :: "OptimizationKey list" where
  "OptimizationKey_values =
     [outputMode, videoBitrate, audioBitrate, quality, colorSpace, fps,
      encoder, keyframeInterval, encoderPreset, profile, tune, audioTrackIndex]"

text \<open>
  \<^verbatim>\<open>enum CategoryName\<close>. The members are named here by their string values
  (\<^verbatim>\<open>output = 'Output'\<close>, \<^verbatim>\<open>video = 'Video'\<close>, \<^verbatim>\<open>advanced = 'Advanced'\<close>);
  \<open>CategoryName_string\<close> is the string a template or a path receives.
\<close>

datatype CategoryName = Output | Video | Advanced

fun CategoryName_string :: "CategoryName \<Rightarrow> string" where
  "CategoryName_string Output = ''Output''"
| "CategoryName_string Video = ''Video''"
| "CategoryName_string Advanced = ''Advanced''"

text \<open>
  A raw setting value (\<^verbatim>\<open>any\<close> in the source): a string, a number or
  \<^verbatim>\<open>undefined\<close>. Numbers are integers here (bitrates, seconds), so that
  \<^verbatim>\<open>!==\<close> is HOL inequality; \<^verbatim>\<open>NaN\<close> is outside the model.
\<close>

datatype val = Undefined | Str string | Num int

text \<open>
  \<^verbatim>\<open>type DefinitionParam\<close>. \<open>label\<close> and \<open>dependents\<close> are optional; an
  absent \<open>lookupValueName\<close> is \<open>False\<close>, the only way the source reads it
  (\<^verbatim>\<open>if (this.lookupValueName)\<close>). A dependent is the pair of its \<^verbatim>\<open>value\<close>
  and its \<^verbatim>\<open>params\<close>.
\<close>

datatype DefinitionParam = DefinitionParam
  (key: OptimizationKey) (category: CategoryName) (subCategory: string) (setting: string)
  (label: "string option") (lookupValueName: bool)
  (dependents: "(val \<times> DefinitionParam list) list option")

text \<open>\<^verbatim>\<open>type OptimizeSettings\<close>: an object with some of the keys as own properties.\<close>

type_synonym OptimizeSettings = "OptimizationKey \<rightharpoonup> val"

text \<open>
  The declared property types of \<^verbatim>\<open>OptimizeSettings\<close>: \<^verbatim>\<open>videoBitrate\<close> and
  \<^verbatim>\<open>keyframeInterval\<close> are numbers, every other property is a string; each is
  optional, so \<^verbatim>\<open>undefined\<close> is admitted everywhere.
\<close>

fun typed :: "OptimizationKey \<Rightarrow> val \<Rightarrow> bool" where
  "typed k Undefined = True"
| "typed k (Num n) = (k = videoBitrate \<or> k = keyframeInterval)"
| "typed k (Str s) = (k \<noteq> videoBitrate \<and> k \<noteq> keyframeInterval)"

definition well_typed :: "OptimizeSettings \<Rightarrow> bool" where
  "well_typed values = (\<forall>k v. values k = Some v \<longrightarrow> typed k v)"

text \<open>\<^verbatim>\<open>const definitionParams\<close>, the shipped tree (lines 51 to 146).\<close>

definition definitionParams :: "DefinitionParam list" where
  "definitionParams =
  [ DefinitionParam outputMode Output ''Untitled'' ''Mode'' None True
      (Some [(Str ''Advanced'',
        [ DefinitionParam videoBitrate Output ''Streaming'' ''bitrate''
            (Some ''settings.videoBitrate'') False None,
          DefinitionParam audioBitrate Output ''Audio - Track 1'' ''Track1Bitrate''
            (Some ''settings.audioBitrate'') False None,
          DefinitionParam encoder Output ''Streaming'' ''Encoder'' None True
            (Some [(Str ''obs_x264'',
              [ DefinitionParam encoderPreset Output ''Streaming'' ''preset''
                  (Some ''settings.encoderPreset'') True None,
                DefinitionParam tune Output ''Streaming'' ''tune'' None True None ])]),
          DefinitionParam keyframeInterval Output ''Streaming'' ''keyint_sec''
            (Some ''settings.keyframeInterval'') False None,
          DefinitionParam profile Output ''Streaming'' ''profile'' None True None,
          DefinitionParam audioTrackIndex Output ''Streaming'' ''TrackIndex'' None False None ])]),
    DefinitionParam quality Video ''Untitled'' ''Output''
      (Some ''streaming.resolution'') True None,
    DefinitionParam colorSpace Advanced ''Video'' ''ColorSpace'' None False None,
    DefinitionParam fps Video ''Untitled'' ''FPSCommon'' (Some ''streaming.FPS'') False None ]"

subsection \<open>Walking the tree\<close>

lemma dependents_size:
  "dependents item = Some deps \<Longrightarrow>
     size_list (size_prod (\<lambda>_. 0) (size_list size)) deps < size item"
  by (cases item) simp

text \<open>
  \<^verbatim>\<open>function* iterateDefinitions\<close>: the generator is a pure traversal, so the list
  of what it yields is the same thing. \<open>iterateDependents\<close> is its inner loop over
  \<^verbatim>\<open>item.dependents\<close>. An empty \<^verbatim>\<open>dependents\<close> array is truthy, like any array.
\<close>

function iterateDefinitions :: "DefinitionParam list \<Rightarrow> DefinitionParam list"
  and iterateDependents :: "(val \<times> DefinitionParam list) list \<Rightarrow> DefinitionParam list" where
  "iterateDefinitions [] = []"
| "iterateDefinitions (item # params) =
     item # (case dependents item of None \<Rightarrow> [] | Some ds \<Rightarrow> iterateDependents ds)
       @ iterateDefinitions params"
| "iterateDependents [] = []"
| "iterateDependents (keyParams # ds) =
     iterateDefinitions (snd keyParams) @ iterateDependents ds"
  by pat_completeness auto
termination
  by (relation "measure (\<lambda>x. case x of
          Inl ps \<Rightarrow> size_list size ps
        | Inr ds \<Rightarrow> size_list (size_prod (\<lambda>_. 0) (size_list size)) ds)")
     (auto dest: dependents_size)

text \<open>
  \<^verbatim>\<open>function isDependValues\<close>; \<open>isDependValues_dependents\<close> is its inner loop.
  \<^verbatim>\<open>values.hasOwnProperty(item.key)\<close> is \<open>values (key item) \<noteq> None\<close>.
\<close>

function isDependValues :: "OptimizeSettings \<Rightarrow> DefinitionParam list \<Rightarrow> bool"
  and isDependValues_dependents ::
    "OptimizeSettings \<Rightarrow> (val \<times> DefinitionParam list) list \<Rightarrow> bool" where
  "isDependValues values [] = False"
| "isDependValues values (item # items) =
     (if values (key item) \<noteq> None then True
      else if (case dependents item of None \<Rightarrow> False
               | Some ds \<Rightarrow> isDependValues_dependents values ds) then True
      else isDependValues values items)"
| "isDependValues_dependents values [] = False"
| "isDependValues_dependents values (dependent # ds) =
     (if isDependValues values (snd dependent) then True
      else isDependValues_dependents values ds)"
  by pat_completeness auto
termination
  by (relation "measure (\<lambda>x. case x of
          Inl (_, ps) \<Rightarrow> size_list size ps
        | Inr (_, ds) \<Rightarrow> size_list (size_prod (\<lambda>_. 0) (size_list size)) ds)")
     (auto dest: dependents_size)

text \<open>
  \<^verbatim>\<open>function validateDefinitionParams\<close>. The function returns nothing; its one
  effect is the \<^verbatim>\<open>console.error\<close> line, printed when \<^verbatim>\<open>missing\<close> is not
  empty. The model returns \<^verbatim>\<open>missing\<close>, and \<open>validation_reports\<close> says whether
  the line is printed. Nothing in the body can throw.
\<close>

definition validateDefinitionParams :: "DefinitionParam list \<Rightarrow> OptimizationKey list" where
  "validateDefinitionParams params =
     (let actual = set (map key (iterateDefinitions params))
      in filter (\<lambda>k. k \<notin> actual) OptimizationKey_values)"

definition validation_reports :: "DefinitionParam list \<Rightarrow> bool" where
  "validation_reports params = (validateDefinitionParams params \<noteq> [])"

section \<open>Display names and display values\<close>

text \<open>
  \<^verbatim>\<open>/\s/\<close> on a string whose code units are below 256, which is what a \<open>char\<close>
  holds: tab, line feed, vertical tab, form feed, carriage return, space and the
  no-break space. The wider Unicode spaces do not occur in such a string.
\<close>

definition whitespace :: "char \<Rightarrow> bool" where
  "whitespace c =
     (c \<in> {CHR 0x09, CHR 0x0A, CHR 0x0B, CHR 0x0C, CHR 0x0D, CHR 0x20, CHR 0xA0})"

text \<open>
  \<^verbatim>\<open>function i18nPath(top, ...args: string[])\<close>. \<open>CHR 0x27\<close> is the single quote of
  \<^verbatim>\<open>['${s}']\<close>.
\<close>

definition i18nPath :: "string \<Rightarrow> string list \<Rightarrow> string" where
  "i18nPath top' args =
     top' @ concat (map (\<lambda>s. if list_ex whitespace s
                             then [CHR ''['', CHR 0x27] @ s @ [CHR 0x27, CHR '']'']
                             else CHR ''.'' # s) args)"

text \<open>
  \<^verbatim>\<open>class OptKeyProperty\<close>. \<open>opt_label\<close> is the private \<^verbatim>\<open>_label\<close>. The constructor
  tests \<^verbatim>\<open>options.label\<close> for truthiness: an absent label and the empty string
  both take the path built by \<open>i18nPath\<close>.
\<close>

record OptKeyProperty =
  opt_key :: OptimizationKey
  opt_category :: CategoryName
  opt_subCategory :: string
  opt_setting :: string
  opt_label :: string
  opt_lookupValueName :: bool

definition new_OptKeyProperty :: "DefinitionParam \<Rightarrow> OptKeyProperty" where
  "new_OptKeyProperty options =
     \<lparr> opt_key = key options,
       opt_category = category options,
       opt_subCategory = subCategory options,
       opt_setting = setting options,
       opt_label =
         (case label options of
            Some l \<Rightarrow>
              if l \<noteq> [] then l
              else i18nPath ''settings'' [CategoryName_string (category options),
                     subCategory options, setting options, ''name'']
          | None \<Rightarrow>
              i18nPath ''settings'' [CategoryName_string (category options),
                subCategory options, setting options, ''name'']),
       opt_lookupValueName = lookupValueName options \<rparr>"

text \<open>
  \<^verbatim>\<open>get label()\<close>. The translation function \<^verbatim>\<open>$t\<close> of \<^verbatim>\<open>services/i18n\<close> is a
  parameter, \<open>t\<close>. The \<^verbatim>\<open>console.log\<close> on the fallback path has no effect on the
  result.
\<close>

definition OptKeyProperty_label :: "(string \<Rightarrow> string) \<Rightarrow> OptKeyProperty \<Rightarrow> string" where
  "OptKeyProperty_label t opt =
     (let l = t (opt_label opt)
      in if l \<noteq> opt_label opt then l else opt_setting opt)"

text \<open>
  \<^verbatim>\<open>value(v: any)\<close>. A \<^verbatim>\<open>return;\<close> gives \<^verbatim>\<open>undefined\<close>. With \<^verbatim>\<open>lookupValueName\<close>
  set, \<^verbatim>\<open>v\<close> is handed to \<open>i18nPath\<close>, which calls \<^verbatim>\<open>s.match\<close> on it: a number has
  no such method and the call raises a \<^verbatim>\<open>TypeError\<close>.
\<close>

datatype error = TypeError

definition OptKeyProperty_value ::
  "(string \<Rightarrow> string) \<Rightarrow> OptKeyProperty \<Rightarrow> val \<Rightarrow> error + val" where
  "OptKeyProperty_value t opt v =
     (if v = Undefined then Inr Undefined
      else if opt_lookupValueName opt then
        (case v of
           Str s \<Rightarrow>
             (let p = i18nPath ''settings'' [CategoryName_string (opt_category opt),
                        opt_subCategory opt, opt_setting opt, s];
                  name = t p
              in if p \<noteq> name then Inr (Str name) else Inr v)
         | _ \<Rightarrow> Inl TypeError)
      else Inr v)"

section \<open>The report of \<^verbatim>\<open>optimizeInfo\<close>\<close>

text \<open>\<^verbatim>\<open>type OptimizeItem\<close>; \<open>newValue\<close> is \<open>None\<close> when the object has no such property.\<close>

record OptimizeItem =
  itemKey :: OptimizationKey
  itemName :: string
  currentValue :: val
  newValue :: "val option"

text \<open>\<^verbatim>\<open>current[key]\<close>: the property, or \<^verbatim>\<open>undefined\<close> when there is none.\<close>

definition property :: "OptimizeSettings \<Rightarrow> OptimizationKey \<Rightarrow> val" where
  "property values k = (case values k of None \<Rightarrow> Undefined | Some v \<Rightarrow> v)"

text \<open>
  The body of the loop of \<^verbatim>\<open>optimizeInfo\<close> up to the item: the object literal
  evaluates \<^verbatim>\<open>opt.label\<close>, then \<^verbatim>\<open>opt.value(current[key])\<close>, then (when the key is
  named) \<^verbatim>\<open>opt.value(optimized[key])\<close>; an exception leaves the function.
\<close>

definition optimizeItem ::
  "(string \<Rightarrow> string) \<Rightarrow> OptimizeSettings \<Rightarrow> OptimizeSettings \<Rightarrow> DefinitionParam
     \<Rightarrow> error + (CategoryName \<times> OptimizeItem)" where
  "optimizeItem t current optimized d =
     (let opt = new_OptKeyProperty d; k = opt_key opt; c = opt_category opt
      in if optimized k \<noteq> None then
           (case OptKeyProperty_value t opt (property current k) of
              Inl e \<Rightarrow> Inl e
            | Inr cv \<Rightarrow>
                (case OptKeyProperty_value t opt (property optimized k) of
                   Inl e \<Rightarrow> Inl e
                 | Inr nv \<Rightarrow>
                     Inr (c, \<lparr> itemKey = k, itemName = OptKeyProperty_label t opt,
                               currentValue = cv, newValue = Some nv \<rparr>)))
         else
           (case OptKeyProperty_value t opt (property current k) of
              Inl e \<Rightarrow> Inl e
            | Inr cv \<Rightarrow>
                Inr (c, \<lparr> itemKey = k, itemName = OptKeyProperty_label t opt,
                          currentValue = cv, newValue = None \<rparr>)))"

text \<open>
  The \<^verbatim>\<open>Map\<close> of the report, in insertion order: \<^verbatim>\<open>map.set(category, [item])\<close> for
  a new category, \<^verbatim>\<open>map.get(category).push(item)\<close> otherwise.
\<close>

fun map_push ::
  "CategoryName \<Rightarrow> OptimizeItem \<Rightarrow> (CategoryName \<times> OptimizeItem list) list
     \<Rightarrow> (CategoryName \<times> OptimizeItem list) list" where
  "map_push c item [] = [(c, [item])]"
| "map_push c item ((c', items) # m) =
     (if c' = c then (c', items @ [item]) # m else (c', items) # map_push c item m)"

fun optimizeInfo_loop ::
  "(string \<Rightarrow> string) \<Rightarrow> OptimizeSettings \<Rightarrow> OptimizeSettings \<Rightarrow> DefinitionParam list
     \<Rightarrow> (CategoryName \<times> OptimizeItem list) list
     \<Rightarrow> error + (CategoryName \<times> OptimizeItem list) list" where
  "optimizeInfo_loop t current optimized [] m = Inr m"
| "optimizeInfo_loop t current optimized (d # ds) m =
     (case optimizeItem t current optimized d of
        Inl e \<Rightarrow> Inl e
      | Inr (c, item) \<Rightarrow> optimizeInfo_loop t current optimized ds (map_push c item m))"

text \<open>\<^verbatim>\<open>Optimizer.optimizeInfo\<close>; \<^verbatim>\<open>this.definitions\<close> is always \<open>definitionParams\<close>.\<close>

definition optimizeInfo ::
  "(string \<Rightarrow> string) \<Rightarrow> OptimizeSettings \<Rightarrow> OptimizeSettings
     \<Rightarrow> error + (CategoryName \<times> OptimizeItem list) list" where
  "optimizeInfo t current optimized =
     optimizeInfo_loop t current optimized (iterateDefinitions definitionParams) []"

text \<open>
  The order in which the elements of a list are first met: the order of the keys of a
  \<^verbatim>\<open>Map\<close> filled from the list.
\<close>

fun first_encountered :: "'a list \<Rightarrow> 'a list" where
  "first_encountered [] = []"
| "first_encountered (x # xs) = x # removeAll x (first_encountered xs)"

text \<open>
  The contract of the translation function: \<open>dict\<close> holds the translations that exist;
  \<open>t\<close> returns the translation of a path that has one, which differs from the path, and
  returns the path itself when there is none.
\<close>

definition translates :: "(string \<Rightarrow> string) \<Rightarrow> (string \<rightharpoonup> string) \<Rightarrow> bool" where
  "translates t dict =
     (\<forall>p. (dict p = None \<longrightarrow> t p = p) \<and> (\<forall>x. dict p = Some x \<longrightarrow> t p = x \<and> x \<noteq> p))"

text \<open>
  The item \<open>optimizeInfo\<close> builds for a node when neither call of \<^verbatim>\<open>opt.value\<close>
  throws.
\<close>

definition display_item ::
  "(string \<Rightarrow> string) \<Rightarrow> OptimizeSettings \<Rightarrow> OptimizeSettings \<Rightarrow> DefinitionParam
     \<Rightarrow> OptimizeItem" where
  "display_item t current optimized d =
     \<lparr> itemKey = key d,
       itemName = OptKeyProperty_label t (new_OptKeyProperty d),
       currentValue =
         projr (OptKeyProperty_value t (new_OptKeyProperty d) (property current (key d))),
       newValue =
         map_option (\<lambda>v. projr (OptKeyProperty_value t (new_OptKeyProperty d) v))
           (optimized (key d)) \<rparr>"

section \<open>The settings store behind the accessor\<close>

text \<open>
  Modelled from the spec: \<^verbatim>\<open>ISettingsSubCategory\<close> of \<^verbatim>\<open>settings-api\<close>, which is not
  among the sources. The form data of a category is a list of sub-categories; a
  sub-category has a name and a list of fields; a field has a name and exposes a mutable
  \<^verbatim>\<open>.value\<close>.
\<close>

record ObsInput =
  inputName :: string
  inputValue :: val

record ISettingsSubCategory =
  nameSubCategory :: string
  parameters :: "ObsInput list"

type_synonym formdata = "ISettingsSubCategory list"

text \<open>
  \<^verbatim>\<open>interface ISettingsAccessor\<close>. The store is a state of type \<open>'st\<close>;
  \<open>getSettingsFormData\<close> reads the form data of a category from it and hands out an
  object of its own (a change made to that object reaches the store only through
  \<open>setSettings\<close>), and \<open>setSettings\<close> writes form data to it. Both are parameters: what the
  store makes of a write is not this file's business.
\<close>

record 'st ISettingsAccessor =
  getSettingsFormData :: "'st \<Rightarrow> CategoryName \<Rightarrow> formdata"
  setSettings :: "CategoryName \<Rightarrow> formdata \<Rightarrow> 'st \<Rightarrow> 'st"

text \<open>
  Modelled from the spec: \<^verbatim>\<open>findSetting\<close> of the accessor, which locates a field in form
  data (\<open>None\<close> when absent): the field of the given name in the first sub-category of
  the given name.
\<close>

definition accessor_findSetting :: "formdata \<Rightarrow> string \<Rightarrow> string \<Rightarrow> ObsInput option" where
  "accessor_findSetting settings sub name =
     (case find (\<lambda>s. nameSubCategory s = sub) settings of
        None \<Rightarrow> None
      | Some s \<Rightarrow> find (\<lambda>i. inputName i = name) (parameters s))"

text \<open>
  Modelled from the spec: \<^verbatim>\<open>findSettingValue\<close> of the accessor, the convenience read:
  the value of the field \<open>accessor_findSetting\<close> locates, \<^verbatim>\<open>undefined\<close> when absent.
\<close>

definition accessor_findSettingValue :: "formdata \<Rightarrow> string \<Rightarrow> string \<Rightarrow> val" where
  "accessor_findSettingValue settings sub name =
     (case accessor_findSetting settings sub name of
        None \<Rightarrow> Undefined
      | Some i \<Rightarrow> inputValue i)"

text \<open>
  \<^verbatim>\<open>setting.value = value\<close> on the object \<open>accessor_findSetting\<close> returned: the object
  is part of the form data, so the assignment changes the form data at the place where
  the field was found.
\<close>

fun assign_parameter :: "string \<Rightarrow> val \<Rightarrow> ObsInput list \<Rightarrow> ObsInput list" where
  "assign_parameter name v [] = []"
| "assign_parameter name v (i # is) =
     (if inputName i = name then i\<lparr>inputValue := v\<rparr> # is
      else i # assign_parameter name v is)"

fun assign_setting :: "formdata \<Rightarrow> string \<Rightarrow> string \<Rightarrow> val \<Rightarrow> formdata" where
  "assign_setting [] sub name v = []"
| "assign_setting (s # ss) sub name v =
     (if nameSubCategory s = sub
      then s\<lparr>parameters := assign_parameter name v (parameters s)\<rparr> # ss
      else s # assign_setting ss sub name v)"

text \<open>
  Modelled from the spec: the host store as the accessor presents it in section 6, a
  store that keeps the form data of each category as last written
  (\<^verbatim>\<open>getFormData\<close> reads the current state of one category, \<^verbatim>\<open>setFormData\<close> is the durable
  write-back of a whole category).
\<close>

definition storeAccessor :: "(CategoryName \<Rightarrow> formdata) ISettingsAccessor" where
  "storeAccessor =
     \<lparr> getSettingsFormData = (\<lambda>st c. st c),
       setSettings = (\<lambda>c data st. st(c := data)) \<rparr>"

section \<open>The optimizer\<close>

text \<open>
  What the optimizer does to its surroundings, in order: the two calls of the accessor
  that touch the store, the lines \<open>setValue\<close> prints (\<^verbatim>\<open>setValue: c/k: v\<close>,
  \<^verbatim>\<open>setValue: c/k: old -> new\<close>, \<^verbatim>\<open>key not found: k\<close>), and the removal of a cache entry,
  which prints nothing. \<^verbatim>\<open>getCategory: c\<close> is printed exactly before
  \<open>GetSettingsFormData c\<close> and \<^verbatim>\<open>updateCategory: c\<close> exactly before \<open>SetSettings c\<close>.
\<close>

datatype event =
    GetSettingsFormData CategoryName
  | SetSettings CategoryName formdata
  | SetValueCalled CategoryName OptimizationKey val
  | ValueChanged CategoryName OptimizationKey val val
  | KeyNotFound OptimizationKey
  | CacheForgotten CategoryName

text \<open>
  \<^verbatim>\<open>class Optimizer\<close> with the store it works on. \<open>modifiedCategories\<close> is a \<^verbatim>\<open>Set\<close>,
  which iterates in insertion order: a list without repetition. \<^verbatim>\<open>definitions\<close> is
  always \<open>definitionParams\<close> and the accessor is passed to each function.
\<close>

record 'st Optimizer =
  host :: 'st
  categoryCache :: "CategoryName \<rightharpoonup> formdata"
  modifiedCategories :: "CategoryName list"
  trace :: "event list"

text \<open>\<^verbatim>\<open>new Optimizer(accessor)\<close> over a store in state \<open>st\<close>.\<close>

definition new_Optimizer :: "'st \<Rightarrow> 'st Optimizer" where
  "new_Optimizer st =
     \<lparr> host = st, categoryCache = Map.empty, modifiedCategories = [], trace = [] \<rparr>"

definition emit :: "event \<Rightarrow> 'st Optimizer \<Rightarrow> 'st Optimizer" where
  "emit e s = s\<lparr>trace := trace s @ [e]\<rparr>"

text \<open>\<^verbatim>\<open>Set.prototype.add\<close> and \<^verbatim>\<open>Set.prototype.delete\<close>.\<close>

definition set_add :: "'a \<Rightarrow> 'a list \<Rightarrow> 'a list" where
  "set_add x xs = (if x \<in> set xs then xs else xs @ [x])"

definition set_delete :: "'a \<Rightarrow> 'a list \<Rightarrow> 'a list" where
  "set_delete x xs = removeAll x xs"

definition getCategory ::
  "'st ISettingsAccessor \<Rightarrow> CategoryName \<Rightarrow> bool \<Rightarrow> 'st Optimizer
     \<Rightarrow> formdata \<times> 'st Optimizer" where
  "getCategory acc c reload s =
     (if reload \<or> categoryCache s c = None then
        (let data = getSettingsFormData acc (host s) c
         in (data, (emit (GetSettingsFormData c) s)
                     \<lparr>categoryCache := (categoryCache s)(c \<mapsto> data)\<rparr>))
      else (case categoryCache s c of Some data \<Rightarrow> (data, s) | None \<Rightarrow> ([], s)))"

definition updateCategory :: "'st ISettingsAccessor \<Rightarrow> CategoryName \<Rightarrow> 'st Optimizer \<Rightarrow> 'st Optimizer" where
  "updateCategory acc c s =
     (if categoryCache s c \<noteq> None then
        (let (data, s') = getCategory acc c False s
         in (emit (SetSettings c data) s')\<lparr>host := setSettings acc c data (host s')\<rparr>)
      else s)"

definition writeBackCategory :: "'st ISettingsAccessor \<Rightarrow> CategoryName \<Rightarrow> 'st Optimizer \<Rightarrow> 'st Optimizer" where
  "writeBackCategory acc c s =
     (if c \<in> set (modifiedCategories s) then
        (let s' = updateCategory acc c s
         in s'\<lparr>modifiedCategories := set_delete c (modifiedCategories s')\<rparr>)
      else s)"

definition writeBackAllCategories :: "'st ISettingsAccessor \<Rightarrow> 'st Optimizer \<Rightarrow> 'st Optimizer" where
  "writeBackAllCategories acc s =
     (fold (updateCategory acc) (modifiedCategories s) s)\<lparr>modifiedCategories := []\<rparr>"

definition forgetCategoryCache :: "CategoryName \<Rightarrow> 'st Optimizer \<Rightarrow> 'st Optimizer" where
  "forgetCategoryCache c s =
     (if categoryCache s c \<noteq> None then
        (emit (CacheForgotten c) s)
          \<lparr>categoryCache := (categoryCache s)(c := None),
           modifiedCategories :=
             (if c \<in> set (modifiedCategories s) then set_delete c (modifiedCategories s)
              else modifiedCategories s)\<rparr>
      else s)"

definition findValue ::
  "'st ISettingsAccessor \<Rightarrow> DefinitionParam \<Rightarrow> 'st Optimizer \<Rightarrow> val \<times> 'st Optimizer" where
  "findValue acc i s =
     (let (data, s') = getCategory acc (category i) False s
      in (accessor_findSettingValue data (subCategory i) (setting i), s'))"

definition findSetting ::
  "'st ISettingsAccessor \<Rightarrow> DefinitionParam \<Rightarrow> 'st Optimizer
     \<Rightarrow> ObsInput option \<times> 'st Optimizer" where
  "findSetting acc i s =
     (let (data, s') = getCategory acc (category i) False s
      in (accessor_findSetting data (subCategory i) (setting i), s'))"

text \<open>
  The categories the two double loops of \<open>setValue\<close> visit, in order:
  \<^verbatim>\<open>for (dependent of item.dependents) for (subItem of dependent.params)\<close>.
\<close>

definition dependent_categories :: "(val \<times> DefinitionParam list) list \<Rightarrow> CategoryName list" where
  "dependent_categories deps = concat (map (\<lambda>dependent. map category (snd dependent)) deps)"

text \<open>
  \<^verbatim>\<open>setting.value = value\<close> in \<open>setValue\<close>: \<^verbatim>\<open>setting\<close> was found in the form data object
  that \<open>getCategory\<close> returned, and that object is the entry of the cache.
\<close>

definition assign_value :: "DefinitionParam \<Rightarrow> val \<Rightarrow> 'st Optimizer \<Rightarrow> 'st Optimizer" where
  "assign_value item v s =
     (case categoryCache s (category item) of
        None \<Rightarrow> s
      | Some data \<Rightarrow>
          s\<lparr>categoryCache := (categoryCache s)
               (category item \<mapsto> assign_setting data (subCategory item) (setting item) v)\<rparr>)"

definition setValue ::
  "'st ISettingsAccessor \<Rightarrow> DefinitionParam \<Rightarrow> val \<Rightarrow> 'st Optimizer \<Rightarrow> 'st Optimizer" where
  "setValue acc item v s =
     (let (found, s1) = findSetting acc item (emit (SetValueCalled (category item) (key item) v) s)
      in case found of
           None \<Rightarrow> emit (KeyNotFound (key item)) s1
         | Some input \<Rightarrow>
             if inputValue input \<noteq> v then
               (let s2 = (case dependents item of
                            None \<Rightarrow> s1
                          | Some deps \<Rightarrow>
                              fold (writeBackCategory acc) (dependent_categories deps) s1);
                    s3 = assign_value item v
                           (emit (ValueChanged (category item) (key item) (inputValue input) v) s2);
                    s4 = s3\<lparr>modifiedCategories :=
                               set_add (category item) (modifiedCategories s3)\<rparr>
                in case dependents item of
                     None \<Rightarrow> s4
                   | Some deps \<Rightarrow>
                       fold forgetCategoryCache (dependent_categories deps)
                         (writeBackCategory acc (category item) s4))
             else s1)"

text \<open>
  \<^verbatim>\<open>private *getValues\<close>. Its one consumer, the spread in \<open>getCurrentSettings\<close>, runs the
  generator to its end, so the pairs it yields and the state it leaves are those of the
  plain recursion. \<open>getValues_dependents\<close> is the loop over \<^verbatim>\<open>item.dependents\<close>.
\<close>

function getValues ::
    "'st ISettingsAccessor \<Rightarrow> DefinitionParam list \<Rightarrow> 'st Optimizer
       \<Rightarrow> (OptimizationKey \<times> val) list \<times> 'st Optimizer"
  and getValues_dependents ::
    "'st ISettingsAccessor \<Rightarrow> DefinitionParam \<Rightarrow> (val \<times> DefinitionParam list) list
       \<Rightarrow> 'st Optimizer \<Rightarrow> (OptimizationKey \<times> val) list \<times> 'st Optimizer" where
  "getValues acc [] s = ([], s)"
| "getValues acc (item # definitions) s =
     (let (v, s1) = findValue acc item s;
          (ys, s2) = (case dependents item of
                        None \<Rightarrow> ([], s1)
                      | Some deps \<Rightarrow>
                          (let (ys, s') = getValues_dependents acc item deps s1
                           in (ys, setValue acc item v s')));
          (zs, s3) = getValues acc definitions s2
      in ((key item, v) # ys @ zs, s3))"
| "getValues_dependents acc item [] s = ([], s)"
| "getValues_dependents acc item (dependent # deps) s =
     (let (ys, s1) = getValues acc (snd dependent) (setValue acc item (fst dependent) s);
          (zs, s2) = getValues_dependents acc item deps s1
      in (ys @ zs, s2))"
  by pat_completeness auto
termination
  by (relation "measure (\<lambda>x. case x of
          Inl (_, ps, _) \<Rightarrow> size_list size ps
        | Inr (_, _, ds, _) \<Rightarrow> size_list (size_prod (\<lambda>_. 0) (size_list size)) ds)")
     (auto dest: dependents_size)

text \<open>
  \<^verbatim>\<open>private setValues\<close>; \<open>setValues_dependents\<close> is the loop over \<^verbatim>\<open>item.dependents\<close>.
\<close>

function setValues ::
    "'st ISettingsAccessor \<Rightarrow> OptimizeSettings \<Rightarrow> DefinitionParam list \<Rightarrow> 'st Optimizer
       \<Rightarrow> 'st Optimizer"
  and setValues_dependents ::
    "'st ISettingsAccessor \<Rightarrow> OptimizeSettings \<Rightarrow> DefinitionParam
       \<Rightarrow> (val \<times> DefinitionParam list) list \<Rightarrow> 'st Optimizer \<Rightarrow> 'st Optimizer" where
  "setValues acc values [] s = s"
| "setValues acc values (item # definitions) s =
     setValues acc values definitions
       (case dependents item of
          Some deps \<Rightarrow>
            (let (v, s1) = findValue acc item s;
                 s2 = setValues_dependents acc values item deps s1;
                 v' = (case values (key item) of Some x \<Rightarrow> x | None \<Rightarrow> v)
             in setValue acc item v' s2)
        | None \<Rightarrow>
            (case values (key item) of
               Some x \<Rightarrow> setValue acc item x s
             | None \<Rightarrow> s))"
| "setValues_dependents acc values item [] s = s"
| "setValues_dependents acc values item (dependent # deps) s =
     setValues_dependents acc values item deps
       (if isDependValues values (snd dependent)
        then setValues acc values (snd dependent) (setValue acc item (fst dependent) s)
        else s)"
  by pat_completeness auto
termination
  by (relation "measure (\<lambda>x. case x of
          Inl (_, _, ps, _) \<Rightarrow> size_list size ps
        | Inr (_, _, _, ds, _) \<Rightarrow> size_list (size_prod (\<lambda>_. 0) (size_list size)) ds)")
     (auto dest: dependents_size)

text \<open>
  \<^verbatim>\<open>getCurrentSettings\<close>: \<^verbatim>\<open>Object.assign({}, ...)\<close> copies the own properties of each
  yielded object in turn, a later one over an earlier one, \<^verbatim>\<open>undefined\<close> values included.
\<close>

definition getCurrentSettings ::
  "'st ISettingsAccessor \<Rightarrow> 'st Optimizer \<Rightarrow> OptimizeSettings \<times> 'st Optimizer" where
  "getCurrentSettings acc s =
     (let (pairs, s') = getValues acc definitionParams s
      in (fold (\<lambda>(k, v) obj. obj(k \<mapsto> v)) pairs Map.empty, s'))"

definition optimize ::
  "'st ISettingsAccessor \<Rightarrow> OptimizeSettings \<Rightarrow> 'st Optimizer \<Rightarrow> 'st Optimizer" where
  "optimize acc optimized s =
     writeBackAllCategories acc (setValues acc optimized definitionParams s)"

section \<open>Notions used to state the properties\<close>

text \<open>
  What a read of category \<open>c\<close> returns in state \<open>s\<close>: the cache entry when there is
  one, the form data the accessor reads from the store otherwise.
\<close>

definition view :: "'st ISettingsAccessor \<Rightarrow> 'st Optimizer \<Rightarrow> CategoryName \<Rightarrow> formdata" where
  "view acc s c =
     (case categoryCache s c of Some data \<Rightarrow> data | None \<Rightarrow> getSettingsFormData acc (host s) c)"

text \<open>Every category of the dirty set has an entry in the cache.\<close>

definition dirty_cached :: "'st Optimizer \<Rightarrow> bool" where
  "dirty_cached s = (set (modifiedCategories s) \<subseteq> dom (categoryCache s))"

text \<open>
  The states an optimizer can be in. It is constructed over a store; the store can change
  behind it between two calls; and every method of the class, public or private, takes a
  state to the next. \<open>assigned\<close> is the assignment \<^verbatim>\<open>setting.value = value\<close> of
  \<open>setValue\<close> together with the \<^verbatim>\<open>modifiedCategories.add\<close> that follows it, which
  \<open>setValue\<close> reaches with the category of the item in the cache.
\<close>

inductive reachable :: "'st ISettingsAccessor \<Rightarrow> 'st Optimizer \<Rightarrow> bool" for acc where
  constructed: "reachable acc (new_Optimizer st)"
| store_changed: "reachable acc s \<Longrightarrow> reachable acc (s\<lparr>host := st\<rparr>)"
| getCurrentSettings: "reachable acc s \<Longrightarrow> reachable acc (snd (getCurrentSettings acc s))"
| optimize: "reachable acc s \<Longrightarrow> reachable acc (optimize acc optimized s)"
| getCategory: "reachable acc s \<Longrightarrow> reachable acc (snd (getCategory acc c False s))"
| updateCategory: "reachable acc s \<Longrightarrow> reachable acc (updateCategory acc c s)"
| writeBackCategory: "reachable acc s \<Longrightarrow> reachable acc (writeBackCategory acc c s)"
| writeBackAllCategories: "reachable acc s \<Longrightarrow> reachable acc (writeBackAllCategories acc s)"
| forgetCategoryCache: "reachable acc s \<Longrightarrow> reachable acc (forgetCategoryCache c s)"
| setValue: "reachable acc s \<Longrightarrow> reachable acc (setValue acc item v s)"
| getValues: "reachable acc s \<Longrightarrow> reachable acc (snd (getValues acc defs s))"
| setValues: "reachable acc s \<Longrightarrow> reachable acc (setValues acc optimized defs s)"
| assigned: "reachable acc s \<Longrightarrow> categoryCache s (category item) \<noteq> None \<Longrightarrow>
     reachable acc ((assign_value item v s)
       \<lparr>modifiedCategories := set_add (category item) (modifiedCategories (assign_value item v s))\<rparr>)"

text \<open>Concrete data for the examples: a store in simple output mode, and two leaf nodes
  of the shipped tree.\<close>

definition example_store :: "CategoryName \<Rightarrow> formdata" where
  "example_store c =
     (case c of
        Output \<Rightarrow>
          [\<lparr>nameSubCategory = ''Untitled'',
            parameters = [\<lparr>inputName = ''Mode'', inputValue = Str ''Simple''\<rparr>]\<rparr>,
           \<lparr>nameSubCategory = ''Streaming'',
            parameters = [\<lparr>inputName = ''bitrate'', inputValue = Num 1000\<rparr>,
                          \<lparr>inputName = ''Encoder'', inputValue = Str ''nvenc''\<rparr>]\<rparr>]
      | Video \<Rightarrow>
          [\<lparr>nameSubCategory = ''Untitled'',
            parameters = [\<lparr>inputName = ''FPSCommon'', inputValue = Str ''30''\<rparr>]\<rparr>]
      | Advanced \<Rightarrow> [])"

definition fps_param :: DefinitionParam where
  "fps_param = DefinitionParam fps Video ''Untitled'' ''FPSCommon'' (Some ''streaming.FPS'') False None"

definition videoBitrate_param :: DefinitionParam where
  "videoBitrate_param =
     DefinitionParam videoBitrate Output ''Streaming'' ''bitrate''
       (Some ''settings.videoBitrate'') False None"

definition edited_state :: "(CategoryName \<Rightarrow> formdata) Optimizer" where
  "edited_state = setValue storeAccessor videoBitrate_param (Num 2500) (new_Optimizer example_store)"

text \<open>
  The value stored for a node in state \<open>s\<close>: the \<^verbatim>\<open>.value\<close> of the field that
  \<^verbatim>\<open>this.findSetting\<close> would locate, \<open>None\<close> when there is no such field.
\<close>

definition stored :: "'st ISettingsAccessor \<Rightarrow> 'st Optimizer \<Rightarrow> DefinitionParam \<Rightarrow> val option" where
  "stored acc s n =
     map_option inputValue
       (accessor_findSetting (view acc s (category n)) (subCategory n) (setting n))"

text \<open>\<open>setValue n v\<close> has nothing to do: the field is absent or already holds \<open>v\<close>.\<close>

definition agrees :: "'st ISettingsAccessor \<Rightarrow> 'st Optimizer \<Rightarrow> DefinitionParam \<Rightarrow> val \<Rightarrow> bool" where
  "agrees acc s n v = (stored acc s n = None \<or> stored acc s n = Some v)"

text \<open>
  The events that leave store, cache and dirty set as they are, but for loading a
  category into the cache.
\<close>

fun quiet :: "event \<Rightarrow> bool" where
  "quiet (GetSettingsFormData c) = True"
| "quiet (SetValueCalled c k v) = True"
| "quiet (KeyNotFound k) = True"
| "quiet (SetSettings c data) = False"
| "quiet (ValueChanged c k old new) = False"
| "quiet (CacheForgotten c) = False"

text \<open>
  From \<open>s\<close> to \<open>s'\<close> nothing was mutated: same store, same dirty set, every category
  reads the same, and only quiet events were added to the trace.
\<close>

definition only_reads :: "'st ISettingsAccessor \<Rightarrow> 'st Optimizer \<Rightarrow> 'st Optimizer \<Rightarrow> bool" where
  "only_reads acc s s' =
     (host s' = host s \<and> modifiedCategories s' = modifiedCategories s
      \<and> view acc s' = view acc s
      \<and> (\<exists>evs. trace s' = trace s @ evs \<and> list_all quiet evs))"

text \<open>
  A node is settled for a target when the value the target names for it is the stored
  one, and the node holds the selector of each of its branches that the target touches.
\<close>

definition settled ::
  "'st ISettingsAccessor \<Rightarrow> OptimizeSettings \<Rightarrow> 'st Optimizer \<Rightarrow> DefinitionParam \<Rightarrow> bool" where
  "settled acc t s n =
     ((\<forall>x. t (key n) = Some x \<longrightarrow> agrees acc s n x)
      \<and> (\<forall>deps. dependents n = Some deps \<longrightarrow>
            (\<forall>b \<in> set deps. isDependValues t (snd b) \<longrightarrow> agrees acc s n (fst b))))"

text \<open>The place of a node's field in the store: category, sub-category, setting.\<close>

definition field :: "DefinitionParam \<Rightarrow> CategoryName \<times> string \<times> string" where
  "field n = (category n, subCategory n, setting n)"

text \<open>
  Over \<open>storeAccessor\<close>: a cached category that is not dirty holds what the store
  holds. A state is consistent when moreover its dirty categories are cached.
\<close>

definition in_sync :: "(CategoryName \<Rightarrow> formdata) Optimizer \<Rightarrow> bool" where
  "in_sync s =
     (\<forall>c data. categoryCache s c = Some data \<longrightarrow> c \<notin> set (modifiedCategories s)
        \<longrightarrow> host s c = data)"

definition consistent :: "(CategoryName \<Rightarrow> formdata) Optimizer \<Rightarrow> bool" where
  "consistent s = (dirty_cached s \<and> in_sync s)"

abbreviation sv :: "(CategoryName \<Rightarrow> formdata) Optimizer \<Rightarrow> DefinitionParam \<Rightarrow> val option" where
  "sv \<equiv> stored storeAccessor"

text \<open>What \<^verbatim>\<open>findSettingValue\<close> returns for a stored value: \<^verbatim>\<open>undefined\<close> when absent.\<close>

definition value_of :: "val option \<Rightarrow> val" where
  "value_of x = (case x of None \<Rightarrow> Undefined | Some v \<Rightarrow> v)"

text \<open>
  From \<open>s\<close> to \<open>s'\<close> only fields of \<open>F\<close> changed their stored value, and no field
  appeared or disappeared.
\<close>

definition frame ::
  "(CategoryName \<times> string \<times> string) set \<Rightarrow> (CategoryName \<Rightarrow> formdata) Optimizer
     \<Rightarrow> (CategoryName \<Rightarrow> formdata) Optimizer \<Rightarrow> bool" where
  "frame F s s' =
     (consistent s' \<and> (\<forall>n. field n \<notin> F \<longrightarrow> sv s' n = sv s n)
      \<and> (\<forall>n. (sv s' n = None) = (sv s n = None)))"

text \<open>
  The stored value of node \<open>m\<close> after a write of target \<open>t\<close>, from the value \<open>old\<close>
  before it: an absent field stays absent, a named one takes the target's value, any
  other keeps its own.
\<close>

definition written :: "OptimizeSettings \<Rightarrow> val option \<Rightarrow> DefinitionParam \<Rightarrow> val option" where
  "written t old m =
     (case old of
        None \<Rightarrow> None
      | Some y \<Rightarrow> Some (case t (key m) of Some x \<Rightarrow> x | None \<Rightarrow> y))"

text \<open>The value a store holds for a node, read from its form data directly.\<close>

definition durable :: "(CategoryName \<Rightarrow> formdata) \<Rightarrow> DefinitionParam \<Rightarrow> val option" where
  "durable store n =
     map_option inputValue
       (accessor_findSetting (store (category n)) (subCategory n) (setting n))"

text \<open>The node \<open>quality\<close> of the shipped tree.\<close>

definition quality_param :: DefinitionParam where
  "quality_param =
     DefinitionParam quality Video ''Untitled'' ''Output'' (Some ''streaming.resolution'') True None"

text \<open>No category is dirty (and the dirty set is within the cache, trivially).\<close>

definition clean :: "'st Optimizer \<Rightarrow> bool" where
  "clean s = (dirty_cached s \<and> modifiedCategories s = [])"

text \<open>
  The events added to the trace from state \<open>s\<close> to a later state \<open>s'\<close>, the keys
  whose value a list of events changes, and: from \<open>s\<close> to \<open>s'\<close> the trace only grew,
  and changed no key outside \<open>K\<close>.
\<close>

definition during :: "'st Optimizer \<Rightarrow> 'st Optimizer \<Rightarrow> event list" where
  "during s s' = drop (length (trace s)) (trace s')"

definition changed_keys :: "event list \<Rightarrow> OptimizationKey set" where
  "changed_keys evs = {k. \<exists>c old new. ValueChanged c k old new \<in> set evs}"

definition extends :: "OptimizationKey set \<Rightarrow> 'st Optimizer \<Rightarrow> 'st Optimizer \<Rightarrow> bool" where
  "extends K s s' = (\<exists>evs. trace s' = trace s @ evs \<and> changed_keys evs \<subseteq> K)"

text \<open>A store in advanced output mode with the x264 encoder.\<close>

definition advanced_store :: "CategoryName \<Rightarrow> formdata" where
  "advanced_store c =
     (case c of
        Output \<Rightarrow>
          [\<lparr>nameSubCategory = ''Untitled'',
            parameters = [\<lparr>inputName = ''Mode'', inputValue = Str ''Advanced''\<rparr>]\<rparr>,
           \<lparr>nameSubCategory = ''Streaming'',
            parameters = [\<lparr>inputName = ''bitrate'', inputValue = Num 2500\<rparr>,
                          \<lparr>inputName = ''Encoder'', inputValue = Str ''obs_x264''\<rparr>,
                          \<lparr>inputName = ''preset'', inputValue = Str ''veryfast''\<rparr>]\<rparr>]
      | Video \<Rightarrow>
          [\<lparr>nameSubCategory = ''Untitled'',
            parameters = [\<lparr>inputName = ''FPSCommon'', inputValue = Str ''30''\<rparr>]\<rparr>]
      | Advanced \<Rightarrow> [])"

section \<open>Validation of the tree\<close>

lemma OptimizationKey_values_all: "set OptimizationKey_values = UNIV"
proof -
  have "k \<in> set OptimizationKey_values" for k
    by (cases k) (simp_all add: OptimizationKey_values_def)
  then show ?thesis by blast
qed

lemma definitionParams_keys:
  "map key (iterateDefinitions definitionParams) =
     [outputMode, videoBitrate, audioBitrate, encoder, encoderPreset, tune,
      keyframeInterval, profile, audioTrackIndex, quality, colorSpace, fps]"
  by (simp add: definitionParams_def)

text \<open>
  Claim C8. \<open>validateDefinitionParams\<close> reports exactly the members of the enumeration that
  flattening \<open>params\<close> does not reach, each once, and it is a total function: nothing
  in it throws. In the shipped tree every member of the enumeration occurs exactly once,
  so the call made when the module is loaded finds nothing missing and prints no
  diagnostic.
\<close>

theorem validateDefinitionParams_reports_missing:
  "set (validateDefinitionParams params) = {k. k \<notin> key ` set (iterateDefinitions params)}
   \<and> distinct (validateDefinitionParams params)
   \<and> distinct (map key (iterateDefinitions definitionParams))
   \<and> key ` set (iterateDefinitions definitionParams) = set OptimizationKey_values
   \<and> length (iterateDefinitions definitionParams) = length OptimizationKey_values
   \<and> validateDefinitionParams definitionParams = []
   \<and> (validation_reports definitionParams = False)"
proof -
  have d: "distinct OptimizationKey_values"
    by (simp add: OptimizationKey_values_def)
  have a: "set (validateDefinitionParams params) = {k. k \<notin> key ` set (iterateDefinitions params)}"
    unfolding validateDefinitionParams_def Let_def
    using OptimizationKey_values_all by auto
  have b: "distinct (validateDefinitionParams params)"
    using d by (simp add: validateDefinitionParams_def)
  have "set (map key (iterateDefinitions definitionParams)) = set OptimizationKey_values"
    unfolding definitionParams_keys OptimizationKey_values_def by auto
  then have k: "key ` set (iterateDefinitions definitionParams) = set OptimizationKey_values"
    by simp
  have e: "validateDefinitionParams definitionParams = []"
    unfolding validateDefinitionParams_def Let_def
    by (simp add: definitionParams_keys OptimizationKey_values_def)
  have l: "length (iterateDefinitions definitionParams) = length OptimizationKey_values"
    using arg_cong [OF definitionParams_keys, of length]
    by (simp add: OptimizationKey_values_def)
  have dk: "distinct (map key (iterateDefinitions definitionParams))"
    unfolding definitionParams_keys by simp
  show ?thesis
    using a b k e l dk by (simp add: validation_reports_def)
qed

section \<open>Display names and values\<close>

text \<open>
  Claim C9, as amended. Under the contract of the translation function, the display name
  of a node is the translation of its label reference when there is one, and the raw
  setting name otherwise. For a node marked \<open>lookupValueName\<close>, the display value of a
  string \<open>s\<close> is the translation found under the path of category, sub-category, setting
  and \<open>s\<close>, and \<open>s\<close> itself when there is none; a node not so marked displays every value
  unchanged; \<^verbatim>\<open>undefined\<close> gives \<^verbatim>\<open>undefined\<close> and nothing is thrown. A number on a node
  marked \<open>lookupValueName\<close> is the one input that throws.
\<close>

theorem display_name_and_value:
  assumes "translates t dict"
  shows "OptKeyProperty_label t (new_OptKeyProperty d) =
           (case dict (opt_label (new_OptKeyProperty d)) of Some x \<Rightarrow> x | None \<Rightarrow> setting d)
       \<and> (lookupValueName d \<longrightarrow>
            OptKeyProperty_value t (new_OptKeyProperty d) (Str s) =
              Inr (case dict (i18nPath ''settings''
                            [CategoryName_string (category d), subCategory d, setting d, s]) of
                     Some x \<Rightarrow> Str x | None \<Rightarrow> Str s))
       \<and> (\<not> lookupValueName d \<longrightarrow> OptKeyProperty_value t (new_OptKeyProperty d) v = Inr v)
       \<and> OptKeyProperty_value t (new_OptKeyProperty d) Undefined = Inr Undefined
       \<and> (lookupValueName d \<longrightarrow>
            OptKeyProperty_value t (new_OptKeyProperty d) (Num n) = Inl TypeError)"
proof -
  have tr: "t p = (case dict p of None \<Rightarrow> p | Some x \<Rightarrow> x)" for p
    using assms by (cases "dict p") (auto simp: translates_def)
  have ne: "dict p = Some x \<Longrightarrow> x \<noteq> p" for p x
    using assms by (auto simp: translates_def)
  have 1: "OptKeyProperty_label t (new_OptKeyProperty d) =
           (case dict (opt_label (new_OptKeyProperty d)) of Some x \<Rightarrow> x | None \<Rightarrow> setting d)"
    using ne by (auto simp: OptKeyProperty_label_def Let_def tr new_OptKeyProperty_def split: option.splits)
  have 2: "lookupValueName d \<Longrightarrow>
            OptKeyProperty_value t (new_OptKeyProperty d) (Str s) =
              Inr (case dict (i18nPath ''settings''
                            [CategoryName_string (category d), subCategory d, setting d, s]) of
                     Some x \<Rightarrow> Str x | None \<Rightarrow> Str s)"
    using ne by (auto simp: OptKeyProperty_value_def Let_def tr new_OptKeyProperty_def split: option.splits)
  have 3: "\<not> lookupValueName d \<Longrightarrow> OptKeyProperty_value t (new_OptKeyProperty d) v = Inr v"
    by (simp add: OptKeyProperty_value_def new_OptKeyProperty_def)
  have 4: "OptKeyProperty_value t (new_OptKeyProperty d) Undefined = Inr Undefined"
    by (simp add: OptKeyProperty_value_def)
  have 5: "lookupValueName d \<Longrightarrow>
            OptKeyProperty_value t (new_OptKeyProperty d) (Num n) = Inl TypeError"
    by (simp add: OptKeyProperty_value_def new_OptKeyProperty_def)
  show ?thesis using 1 2 3 4 5 by blast
qed

theorem display_name_and_value_witness:
  "translates (\<lambda>p. if p = ''settings.videoBitrate'' then ''Bitrate'' else p)
     [''settings.videoBitrate'' \<mapsto> ''Bitrate'']
   \<and> OptKeyProperty_label (\<lambda>p. if p = ''settings.videoBitrate'' then ''Bitrate'' else p)
        (new_OptKeyProperty (DefinitionParam videoBitrate Output ''Streaming'' ''bitrate''
            (Some ''settings.videoBitrate'') False None)) = ''Bitrate''
   \<and> OptKeyProperty_label (\<lambda>p. if p = ''settings.videoBitrate'' then ''Bitrate'' else p)
        (new_OptKeyProperty (DefinitionParam tune Output ''Streaming'' ''tune'' None True None))
        = ''tune''
   \<and> OptKeyProperty_value (\<lambda>p. if p = ''settings.videoBitrate'' then ''Bitrate'' else p)
        (new_OptKeyProperty (DefinitionParam tune Output ''Streaming'' ''tune'' None True None))
        (Str ''film'') = Inr (Str ''film'')"
proof -
  let ?t = "\<lambda>p. if p = ''settings.videoBitrate'' then ''Bitrate'' else p"
  let ?dict = "[''settings.videoBitrate'' \<mapsto> ''Bitrate'']"
  have h: "translates ?t ?dict"
    by (auto simp: translates_def)
  show ?thesis
    using h
      display_name_and_value [OF h,
        of "DefinitionParam videoBitrate Output ''Streaming'' ''bitrate''
              (Some ''settings.videoBitrate'') False None"]
      display_name_and_value [OF h,
        of "DefinitionParam tune Output ''Streaming'' ''tune'' None True None" "''film''"]
    by (simp add: new_OptKeyProperty_def i18nPath_def whitespace_def)
qed

text \<open>
  The claim as stated fails on a number: with no translation at all, the display value
  of \<open>720\<close> on the shipped node \<open>quality\<close>, which is marked \<open>lookupValueName\<close>, is not
  \<open>720\<close> but a \<^verbatim>\<open>TypeError\<close>.
\<close>

theorem display_value_number_counterexample:
  "OptKeyProperty_value (\<lambda>p. p)
     (new_OptKeyProperty (DefinitionParam quality Video ''Untitled'' ''Output''
        (Some ''streaming.resolution'') True None))
     (Num 720) = Inl TypeError"
  by (simp add: OptKeyProperty_value_def new_OptKeyProperty_def)

section \<open>The report\<close>

lemma shipped_lookup_keys:
  "d \<in> set (iterateDefinitions definitionParams) \<Longrightarrow> lookupValueName d \<Longrightarrow>
     key d \<noteq> videoBitrate \<and> key d \<noteq> keyframeInterval"
  by (auto simp: definitionParams_def)

lemma value_typed:
  assumes "lookupValueName d \<longrightarrow> key d \<noteq> videoBitrate \<and> key d \<noteq> keyframeInterval"
    and "typed (key d) v"
  shows "\<exists>r. OptKeyProperty_value t (new_OptKeyProperty d) v = Inr r"
  using assms by (cases v) (auto simp: OptKeyProperty_value_def new_OptKeyProperty_def Let_def)

lemma property_typed: "well_typed values \<Longrightarrow> typed k (property values k)"
  by (auto simp: well_typed_def property_def split: option.splits)

lemma optimizeItem_shipped:
  assumes "well_typed current" "well_typed optimized"
    and "d \<in> set (iterateDefinitions definitionParams)"
  shows "optimizeItem t current optimized d = Inr (category d, display_item t current optimized d)"
proof -
  have lk: "lookupValueName d \<longrightarrow> key d \<noteq> videoBitrate \<and> key d \<noteq> keyframeInterval"
    using shipped_lookup_keys assms(3) by blast
  obtain cv where cv: "OptKeyProperty_value t (new_OptKeyProperty d) (property current (key d)) = Inr cv"
    using value_typed [OF lk property_typed [OF assms(1)]] by blast
  obtain nv where nv: "OptKeyProperty_value t (new_OptKeyProperty d) (property optimized (key d)) = Inr nv"
    using value_typed [OF lk property_typed [OF assms(2)]] by blast
  have k: "opt_key (new_OptKeyProperty d) = key d" "opt_category (new_OptKeyProperty d) = category d"
    by (simp_all add: new_OptKeyProperty_def)
  show ?thesis
  proof (cases "optimized (key d)")
    case None
    then show ?thesis
      by (simp add: optimizeItem_def Let_def k cv display_item_def)
  next
    case (Some v)
    then have "property optimized (key d) = v" by (simp add: property_def)
    with Some show ?thesis
      using nv by (simp add: optimizeItem_def Let_def k cv display_item_def)
  qed
qed

lemma optimizeInfo_loop_all:
  "(\<forall>d \<in> set ds. optimizeItem t current optimized d = Inr (category d, f d)) \<Longrightarrow>
     optimizeInfo_loop t current optimized ds m =
       Inr (foldl (\<lambda>m d. map_push (category d) (f d) m) m ds)"
  by (induction ds arbitrary: m) auto

lemma display_item_sel:
  "itemKey (display_item t current optimized d) = key d"
  "(newValue (display_item t current optimized d) \<noteq> None) = (optimized (key d) \<noteq> None)"
  "(\<exists>y. newValue (display_item t current optimized d) = Some y) = (\<exists>y. optimized (key d) = Some y)"
  by (simp_all add: display_item_def)



section \<open>The cache and the dirty set\<close>

subsection \<open>The fields of the state after each step\<close>

lemma emit_fields [simp]:
  "host (emit e s) = host s"
  "categoryCache (emit e s) = categoryCache s"
  "modifiedCategories (emit e s) = modifiedCategories s"
  "trace (emit e s) = trace s @ [e]"
  by (simp_all add: emit_def)

lemma getCategory_fields [simp]:
  "fst (getCategory acc c False s) = view acc s c"
  "host (snd (getCategory acc c False s)) = host s"
  "categoryCache (snd (getCategory acc c False s)) = (categoryCache s)(c \<mapsto> view acc s c)"
  "modifiedCategories (snd (getCategory acc c False s)) = modifiedCategories s"
  "trace (snd (getCategory acc c False s)) =
     trace s @ (if categoryCache s c = None then [GetSettingsFormData c] else [])"
  by (auto simp: getCategory_def view_def Let_def split: option.splits)

lemma updateCategory_fields [simp]:
  "host (updateCategory acc c s) =
     (case categoryCache s c of None \<Rightarrow> host s | Some data \<Rightarrow> setSettings acc c data (host s))"
  "categoryCache (updateCategory acc c s) = categoryCache s"
  "modifiedCategories (updateCategory acc c s) = modifiedCategories s"
  "trace (updateCategory acc c s) =
     trace s @ (case categoryCache s c of None \<Rightarrow> [] | Some data \<Rightarrow> [SetSettings c data])"
  by (auto simp: updateCategory_def getCategory_def Let_def split: option.splits)

lemma writeBackCategory_fields [simp]:
  "host (writeBackCategory acc c s) =
     (if c \<in> set (modifiedCategories s) then host (updateCategory acc c s) else host s)"
  "categoryCache (writeBackCategory acc c s) = categoryCache s"
  "modifiedCategories (writeBackCategory acc c s) = removeAll c (modifiedCategories s)"
  "trace (writeBackCategory acc c s) =
     (if c \<in> set (modifiedCategories s) then trace (updateCategory acc c s) else trace s)"
  by (auto simp: writeBackCategory_def Let_def set_delete_def)

lemma forgetCategoryCache_fields [simp]:
  "host (forgetCategoryCache c s) = host s"
  "categoryCache (forgetCategoryCache c s) = (categoryCache s)(c := None)"
  "modifiedCategories (forgetCategoryCache c s) =
     (if categoryCache s c \<noteq> None then removeAll c (modifiedCategories s)
      else modifiedCategories s)"
  "trace (forgetCategoryCache c s) =
     trace s @ (if categoryCache s c \<noteq> None then [CacheForgotten c] else [])"
  by (auto simp: forgetCategoryCache_def set_delete_def fun_upd_idem)

lemma assign_value_fields [simp]:
  "host (assign_value item v s) = host s"
  "categoryCache (assign_value item v s) =
     (case categoryCache s (category item) of
        None \<Rightarrow> categoryCache s
      | Some data \<Rightarrow> (categoryCache s)
          (category item \<mapsto> assign_setting data (subCategory item) (setting item) v))"
  "modifiedCategories (assign_value item v s) = modifiedCategories s"
  "trace (assign_value item v s) = trace s"
  by (auto simp: assign_value_def split: option.splits)

lemma findSetting_fields [simp]:
  "fst (findSetting acc i s) =
     accessor_findSetting (view acc s (category i)) (subCategory i) (setting i)"
  "snd (findSetting acc i s) = snd (getCategory acc (category i) False s)"
  by (simp_all add: findSetting_def split_beta)

lemma findValue_fields [simp]:
  "fst (findValue acc i s) =
     accessor_findSettingValue (view acc s (category i)) (subCategory i) (setting i)"
  "snd (findValue acc i s) = snd (getCategory acc (category i) False s)"
  by (simp_all add: findValue_def split_beta)

lemma view_emit [simp]: "view acc (emit e s) = view acc s"
  by (simp add: view_def fun_eq_iff split: option.splits)

lemma view_cached: "categoryCache s c = Some data \<Longrightarrow> view acc s c = data"
  by (simp add: view_def)


subsection \<open>The dirty set stays within the cache\<close>

lemma dirty_cached_getCategory: "dirty_cached s \<Longrightarrow> dirty_cached (snd (getCategory acc c False s))"
  by (auto simp: dirty_cached_def)

lemma dirty_cached_emit [simp]: "dirty_cached (emit e s) = dirty_cached s"
  by (simp add: dirty_cached_def)

lemma dirty_cached_updateCategory [simp]: "dirty_cached (updateCategory acc c s) = dirty_cached s"
  by (simp add: dirty_cached_def)

lemma dirty_cached_writeBackCategory:
  "dirty_cached s \<Longrightarrow> dirty_cached (writeBackCategory acc c s)"
  by (auto simp: dirty_cached_def)

lemma dirty_cached_forgetCategoryCache:
  "dirty_cached s \<Longrightarrow> dirty_cached (forgetCategoryCache c s)"
  by (auto simp: dirty_cached_def)

lemma dirty_cached_fold_writeBack:
  "dirty_cached s \<Longrightarrow> dirty_cached (fold (writeBackCategory acc) cs s)"
  by (induction cs arbitrary: s) (simp_all add: dirty_cached_writeBackCategory)

lemma dirty_cached_fold_forget:
  "dirty_cached s \<Longrightarrow> dirty_cached (fold forgetCategoryCache cs s)"
  by (induction cs arbitrary: s) (simp_all add: dirty_cached_forgetCategoryCache)

lemma dirty_cached_fold_update:
  "dirty_cached (fold (updateCategory acc) cs s) = dirty_cached s"
  by (induction cs arbitrary: s) simp_all

lemma fold_updateCategory_cache [simp]:
  "categoryCache (fold (updateCategory acc) cs s) = categoryCache s"
  by (induction cs arbitrary: s) simp_all

lemma dirty_cached_writeBackAll: "dirty_cached (writeBackAllCategories acc s)"
  by (simp add: writeBackAllCategories_def dirty_cached_def)

lemma dirty_cached_mark:
  "dirty_cached s \<Longrightarrow> categoryCache s (category item) \<noteq> None \<Longrightarrow>
     dirty_cached ((assign_value item v s)
        \<lparr>modifiedCategories := set_add (category item) (modifiedCategories (assign_value item v s))\<rparr>)"
  by (auto simp: dirty_cached_def set_add_def split: option.splits)

lemma fold_writeBack_cache [simp]:
  "categoryCache (fold (writeBackCategory acc) cs s) = categoryCache s"
  by (induction cs arbitrary: s) simp_all

lemma dirty_cached_setValue: "dirty_cached s \<Longrightarrow> dirty_cached (setValue acc item v s)"
proof -
  assume inv: "dirty_cached s"
  let ?s0 = "emit (SetValueCalled (category item) (key item) v) s"
  let ?s1 = "snd (getCategory acc (category item) False ?s0)"
  have i1: "dirty_cached ?s1"
    using inv by (simp add: dirty_cached_getCategory)
  have c1: "categoryCache ?s1 (category item) \<noteq> None" by simp
  show ?thesis
  proof (cases "dependents item")
    case None
    then show ?thesis
      using i1 dirty_cached_mark [OF _ c1]
      apply (simp add: setValue_def split_beta Let_def split: option.splits)
      apply (auto simp: dirty_cached_def set_add_def  split: option.splits)
      done
  next
    case (Some deps)
    let ?s2 = "fold (writeBackCategory acc) (dependent_categories deps) ?s1"
    have i2: "dirty_cached ?s2" using i1 by (rule dirty_cached_fold_writeBack)
    have c2: "categoryCache ?s2 (category item) \<noteq> None" by simp
    have e: "dirty_cached (emit (ValueChanged (category item) (key item) x v) ?s2)" for x
      using i2 by simp
    have "dirty_cached ((assign_value item v (emit (ValueChanged (category item) (key item) x v) ?s2))
        \<lparr>modifiedCategories := set_add (category item) (modifiedCategories
           (assign_value item v (emit (ValueChanged (category item) (key item) x v) ?s2)))\<rparr>)" for x
      by (rule dirty_cached_mark [OF e]) simp
    then show ?thesis
      using Some i1
      by (simp add: setValue_def split_beta Let_def dirty_cached_fold_forget
            dirty_cached_writeBackCategory split: option.splits)
  qed
qed

lemma dirty_cached_findValue: "dirty_cached s \<Longrightarrow> dirty_cached (snd (findValue acc i s))"
  by (simp add: dirty_cached_getCategory)


lemma getValues_Cons_state:
  "snd (getValues acc (item # defs) s) =
     snd (getValues acc defs
       (case dependents item of
          None \<Rightarrow> snd (findValue acc item s)
        | Some deps \<Rightarrow>
            setValue acc item (fst (findValue acc item s))
              (snd (getValues_dependents acc item deps (snd (findValue acc item s))))))"
  by (simp add: split_beta Let_def del: findValue_fields split: option.splits)

lemma getValues_dependents_Cons_state:
  "snd (getValues_dependents acc item (d # deps) s) =
     snd (getValues_dependents acc item deps
            (snd (getValues acc (snd d) (setValue acc item (fst d) s))))"
  by (simp add: split_beta Let_def)

lemma getValues_preserves:
  assumes g: "\<And>acc c s. P acc s \<Longrightarrow> P acc (snd (getCategory acc c False s))"
    and v: "\<And>acc item v s. P acc s \<Longrightarrow> P acc (setValue acc item v s)"
  shows "P acc s \<Longrightarrow> P acc (snd (getValues acc defs s))"
    and "P acc s \<Longrightarrow> P acc (snd (getValues_dependents acc item deps s))"
proof (induction acc defs s and acc item deps s rule: getValues_getValues_dependents.induct)
  case (1 acc s)
  then show ?case by simp
next
  case (2 acc item definitions s)
  let ?x = "findValue acc item s"
  have p1: "P acc (snd ?x)" using g "2.prems" by simp
  show ?case
  proof (cases "dependents item")
    case None
    with "2.IH"(2) [OF refl prod.collapse refl prod.collapse] p1 show ?thesis
      unfolding getValues_Cons_state by (simp add: None del: findValue_fields)
  next
    case (Some deps)
    have "P acc (snd (getValues_dependents acc item deps (snd ?x)))"
      using "2.IH"(1) [OF refl prod.collapse Some] p1 by (simp del: findValue_fields)
    then have "P acc (setValue acc item (fst ?x) (snd (getValues_dependents acc item deps (snd ?x))))"
      by (rule v)
    with "2.IH"(2) [OF refl prod.collapse refl prod.collapse] show ?thesis
      unfolding getValues_Cons_state by (simp add: Some split_beta del: findValue_fields)
  qed
next
  case (3 acc item s)
  then show ?case by simp
next
  case (4 acc item dependent deps s)
  have "P acc (setValue acc item (fst dependent) s)" using "4.prems" by (rule v)
  then have "P acc (snd (getValues acc (snd dependent) (setValue acc item (fst dependent) s)))"
    by (rule "4.IH"(1))
  then show ?case
    unfolding getValues_dependents_Cons_state
    by (rule "4.IH"(2) [OF refl prod.collapse])
qed

lemma setValues_preserves:
  assumes g: "\<And>acc c s. P acc s \<Longrightarrow> P acc (snd (getCategory acc c False s))"
    and v: "\<And>acc item v s. P acc s \<Longrightarrow> P acc (setValue acc item v s)"
  shows "P acc s \<Longrightarrow> P acc (setValues acc vals defs s)"
    and "P acc s \<Longrightarrow> P acc (setValues_dependents acc vals item deps s)"
proof (induction acc vals defs s and acc vals item deps s
    rule: setValues_setValues_dependents.induct)
  case (1 acc vals s)
  then show ?case by simp
next
  case (2 acc vals item definitions s)
  let ?x = "findValue acc item s"
  have p1: "P acc (snd ?x)" using g "2.prems" by simp
  show ?case
  proof (cases "dependents item")
    case None
    have "P acc (case vals (key item) of Some x \<Rightarrow> setValue acc item x s | None \<Rightarrow> s)"
      using "2.prems" v by (simp split: option.splits)
    with "2.IH"(2) show ?thesis by (simp add: None)
  next
    case (Some deps)
    have "P acc (setValues_dependents acc vals item deps (snd ?x))"
      using "2.IH"(1) [OF Some refl prod.collapse] p1 by (simp del: findValue_fields)
    then have "P acc (setValue acc item v' (setValues_dependents acc vals item deps (snd ?x)))" for v'
      by (rule v)
    with "2.IH"(2) show ?thesis
      by (simp add: Some split_beta Let_def del: findValue_fields)
  qed
next
  case (3 acc vals item s)
  then show ?case by simp
next
  case (4 acc vals item dependent deps s)
  have "P acc (setValue acc item (fst dependent) s)" using "4.prems" by (rule v)
  then have "isDependValues vals (snd dependent) \<Longrightarrow>
      P acc (setValues acc vals (snd dependent) (setValue acc item (fst dependent) s))"
    using "4.IH"(1) by blast
  then show ?case
    using "4.IH"(2) "4.prems" by simp
qed

lemma dirty_cached_getValues:
  "dirty_cached s \<Longrightarrow> dirty_cached (snd (getValues acc defs s))"
  by (rule getValues_preserves(1) [where P = "\<lambda>_. dirty_cached"])
     (simp_all add: dirty_cached_getCategory dirty_cached_setValue)

lemma dirty_cached_setValues:
  "dirty_cached s \<Longrightarrow> dirty_cached (setValues acc vals defs s)"
  by (rule setValues_preserves(1) [where P = "\<lambda>_. dirty_cached"])
     (simp_all add: dirty_cached_getCategory dirty_cached_setValue)

lemma reachable_dirty_cached: "reachable acc s \<Longrightarrow> dirty_cached s"
proof (induction rule: reachable.induct)
  case (constructed st)
  then show ?case by (simp add: dirty_cached_def new_Optimizer_def)
next
  case (store_changed s st)
  then show ?case by (simp add: dirty_cached_def)
next
  case (getCurrentSettings s)
  then show ?case by (simp add: getCurrentSettings_def split_beta dirty_cached_getValues)
next
  case (optimize s optimized)
  then show ?case by (simp add: optimize_def dirty_cached_writeBackAll)
next
  case (getCategory s c)
  then show ?case by (simp add: dirty_cached_getCategory)
next
  case (updateCategory s c)
  then show ?case by simp
next
  case (writeBackCategory s c)
  then show ?case by (simp add: dirty_cached_writeBackCategory)
next
  case (writeBackAllCategories s)
  then show ?case by (simp add: dirty_cached_writeBackAll)
next
  case (forgetCategoryCache s c)
  then show ?case by (simp add: dirty_cached_forgetCategoryCache)
next
  case (setValue s item v)
  then show ?case by (simp add: dirty_cached_setValue)
next
  case (getValues s defs)
  then show ?case by (simp add: dirty_cached_getValues)
next
  case (setValues s optimized defs)
  then show ?case by (simp add: dirty_cached_setValues)
next
  case (assigned s item v)
  from assigned.IH assigned.hyps(2) show ?case by (rule dirty_cached_mark)
qed

lemma fold_updateCategory_trace:
  "trace (fold (updateCategory acc) cs s) =
     trace s @ concat (map (\<lambda>c. case categoryCache s c of None \<Rightarrow> []
                                | Some data \<Rightarrow> [SetSettings c data]) cs)"
  by (induction cs arbitrary: s) simp_all

lemma storeAccessor_fields [simp]:
  "getSettingsFormData storeAccessor st c = st c"
  "setSettings storeAccessor c data st = st(c := data)"
  by (simp_all add: storeAccessor_def)

lemma example_store_simps [simp]:
  "example_store Output =
          [\<lparr>nameSubCategory = ''Untitled'',
            parameters = [\<lparr>inputName = ''Mode'', inputValue = Str ''Simple''\<rparr>]\<rparr>,
           \<lparr>nameSubCategory = ''Streaming'',
            parameters = [\<lparr>inputName = ''bitrate'', inputValue = Num 1000\<rparr>,
                          \<lparr>inputName = ''Encoder'', inputValue = Str ''nvenc''\<rparr>]\<rparr>]"
  "example_store Video =
          [\<lparr>nameSubCategory = ''Untitled'',
            parameters = [\<lparr>inputName = ''FPSCommon'', inputValue = Str ''30''\<rparr>]\<rparr>]"
  "example_store Advanced = []"
  by (simp_all add: example_store_def)


text \<open>
  Claim C10. In every reachable state each category of \<open>modifiedCategories\<close> has an
  entry in \<open>categoryCache\<close>. So the test \<^verbatim>\<open>categoryCache.has\<close> of \<open>updateCategory\<close>
  never skips a dirty category: \<open>writeBackCategory\<close> on a dirty category calls
  \<^verbatim>\<open>setSettings\<close> with the cached form data, and \<open>writeBackAllCategories\<close> calls it once
  for each dirty category, in the order of the set.
\<close>

theorem modified_categories_are_cached:
  assumes "reachable acc s"
  shows "set (modifiedCategories s) \<subseteq> dom (categoryCache s)
    \<and> (\<forall>c \<in> set (modifiedCategories s).
          categoryCache s c = Some (view acc s c)
          \<and> trace (writeBackCategory acc c s) = trace s @ [SetSettings c (view acc s c)]
          \<and> host (writeBackCategory acc c s) = setSettings acc c (view acc s c) (host s))
    \<and> trace (writeBackAllCategories acc s) =
          trace s @ map (\<lambda>c. SetSettings c (view acc s c)) (modifiedCategories s)"
proof -
  have inv: "dirty_cached s" using assms by (rule reachable_dirty_cached)
  then have 1: "set (modifiedCategories s) \<subseteq> dom (categoryCache s)"
    by (simp add: dirty_cached_def)
  have c: "categoryCache s c = Some (view acc s c)" if "c \<in> set (modifiedCategories s)" for c
    using 1 that by (auto simp: view_def)
  have 2: "\<forall>c \<in> set (modifiedCategories s).
          categoryCache s c = Some (view acc s c)
          \<and> trace (writeBackCategory acc c s) = trace s @ [SetSettings c (view acc s c)]
          \<and> host (writeBackCategory acc c s) = setSettings acc c (view acc s c) (host s)"
    using c by simp
  have "concat (map (\<lambda>c. case categoryCache s c of None \<Rightarrow> []
                                | Some data \<Rightarrow> [SetSettings c data]) cs)
        = map (\<lambda>c. SetSettings c (view acc s c)) cs" if "set cs \<subseteq> set (modifiedCategories s)" for cs
    using that by (induction cs) (simp_all add: c)
  then have 3: "trace (writeBackAllCategories acc s) =
          trace s @ map (\<lambda>c. SetSettings c (view acc s c)) (modifiedCategories s)"
    by (simp add: writeBackAllCategories_def fold_updateCategory_trace)
  show ?thesis using 1 2 3 by blast
qed

theorem modified_categories_are_cached_witness:
  "reachable storeAccessor
     (setValue storeAccessor fps_param (Str ''60'') (new_Optimizer example_store))
   \<and> modifiedCategories
        (setValue storeAccessor fps_param (Str ''60'') (new_Optimizer example_store)) = [Video]
   \<and> categoryCache
        (setValue storeAccessor fps_param (Str ''60'') (new_Optimizer example_store)) Video \<noteq> None"
proof -
  let ?s = "setValue storeAccessor fps_param (Str ''60'') (new_Optimizer example_store)"
  have r: "reachable storeAccessor ?s"
    by (intro reachable.setValue reachable.constructed)
  have m: "modifiedCategories ?s = [Video]"
  by (simp add: setValue_def fps_param_def new_Optimizer_def split_beta Let_def view_def
       accessor_findSetting_def set_add_def)
  show ?thesis
    using r m modified_categories_are_cached [OF r] by auto
qed


subsection \<open>Flushing before forgetting\<close>

lemma fold_writeBack_modified [simp]:
  "modifiedCategories (fold (writeBackCategory acc) cs s) =
     filter (\<lambda>c. c \<notin> set cs) (modifiedCategories s)"
proof (induction cs arbitrary: s)
  case Nil
  then show ?case by simp
next
  case (Cons c cs)
  have "filter (\<lambda>x. x \<notin> set cs) (removeAll c xs) = filter (\<lambda>x. x \<noteq> c \<and> x \<notin> set cs) xs" for xs
    by (induction xs) auto
  then show ?case using Cons by (simp add: conj_commute)
qed

lemma fold_writeBack_trace:
  "dirty_cached s \<Longrightarrow>
     \<exists>pre. trace (fold (writeBackCategory acc) cs s) = trace s @ pre
       \<and> set pre = {SetSettings c data |c data.
                      c \<in> set cs \<and> c \<in> set (modifiedCategories s) \<and> categoryCache s c = Some data}"
proof (induction cs arbitrary: s)
  case Nil
  then show ?case by simp
next
  case (Cons c cs)
  let ?s = "writeBackCategory acc c s"
  have "dirty_cached ?s" using Cons.prems by (rule dirty_cached_writeBackCategory)
  from Cons.IH [OF this] obtain pre where
    t: "trace (fold (writeBackCategory acc) cs ?s) = trace ?s @ pre"
    and p: "set pre = {SetSettings c' data |c' data.
              c' \<in> set cs \<and> c' \<in> set (modifiedCategories ?s) \<and> categoryCache ?s c' = Some data}"
    by blast
  show ?case
  proof (cases "c \<in> set (modifiedCategories s)")
    case False
    then have "removeAll c (modifiedCategories s) = modifiedCategories s" by simp
    with t p False show ?thesis by auto
  next
    case True
    with Cons.prems obtain data where d: "categoryCache s c = Some data"
      by (auto simp: dirty_cached_def)
    have "trace (fold (writeBackCategory acc) (c # cs) s) = trace s @ (SetSettings c data # pre)"
      using t True d by simp
    moreover have "set (SetSettings c data # pre) = {SetSettings c' data' |c' data'.
        c' \<in> set (c # cs) \<and> c' \<in> set (modifiedCategories s) \<and> categoryCache s c' = Some data'}"
      using p True d by auto
    ultimately show ?thesis by blast
  qed
qed

lemma fold_forget_cache [simp]:
  "categoryCache (fold forgetCategoryCache cs s) =
     (\<lambda>c. if c \<in> set cs then None else categoryCache s c)"
  by (induction cs arbitrary: s) (auto simp: fun_eq_iff)

lemma fold_forget_host [simp]: "host (fold forgetCategoryCache cs s) = host s"
  by (induction cs arbitrary: s) auto

lemma fold_forget_modified:
  "dirty_cached s \<Longrightarrow>
     modifiedCategories (fold forgetCategoryCache cs s) =
       filter (\<lambda>c. c \<notin> set cs) (modifiedCategories s)"
proof (induction cs arbitrary: s)
  case Nil
  then show ?case by simp
next
  case (Cons c cs)
  have f: "filter (\<lambda>x. x \<notin> set cs) (removeAll c xs) = filter (\<lambda>x. x \<noteq> c \<and> x \<notin> set cs) xs" for xs
    by (induction xs) auto
  have n: "categoryCache s c = None \<Longrightarrow> c \<notin> set (modifiedCategories s)"
    using Cons.prems by (auto simp: dirty_cached_def)
  have "modifiedCategories (forgetCategoryCache c s) = removeAll c (modifiedCategories s)"
    using n by auto
  with Cons.IH [OF dirty_cached_forgetCategoryCache [OF Cons.prems], of c]
  show ?case by (simp add: f conj_commute del: forgetCategoryCache_fields)
qed

lemma fold_forget_trace:
  "\<exists>post. trace (fold forgetCategoryCache cs s) = trace s @ post
     \<and> set post = {CacheForgotten c |c. c \<in> set cs \<and> categoryCache s c \<noteq> None}"
proof (induction cs arbitrary: s)
  case Nil
  then show ?case by simp
next
  case (Cons c cs)
  let ?s = "forgetCategoryCache c s"
  from Cons.IH [of ?s] obtain post where
    t: "trace (fold forgetCategoryCache cs ?s) = trace ?s @ post"
    and p: "set post = {CacheForgotten c' |c'. c' \<in> set cs \<and> categoryCache ?s c' \<noteq> None}"
    by blast
  show ?case
  proof (cases "categoryCache s c")
    case None
    then have e: "?s = s" by (simp add: forgetCategoryCache_def)
    have "trace (fold forgetCategoryCache (c # cs) s) = trace s @ post"
      using t e by simp
    moreover have "set post =
        {CacheForgotten c' |c'. c' \<in> set (c # cs) \<and> categoryCache s c' \<noteq> None}"
      using p e None by auto
    ultimately show ?thesis by blast
  next
    case (Some data)
    have "trace (fold forgetCategoryCache (c # cs) s) = trace s @ (CacheForgotten c # post)"
      using t Some by simp
    moreover have "set (CacheForgotten c # post) =
        {CacheForgotten c' |c'. c' \<in> set (c # cs) \<and> categoryCache s c' \<noteq> None}"
      using p Some by (auto split: if_splits)
    ultimately show ?thesis by blast
  qed
qed



lemma edited_state_fields:
  "host edited_state = example_store"
  "categoryCache edited_state =
     [Output \<mapsto>
          [\<lparr>nameSubCategory = ''Untitled'',
            parameters = [\<lparr>inputName = ''Mode'', inputValue = Str ''Simple''\<rparr>]\<rparr>,
           \<lparr>nameSubCategory = ''Streaming'',
            parameters = [\<lparr>inputName = ''bitrate'', inputValue = Num 2500\<rparr>,
                          \<lparr>inputName = ''Encoder'', inputValue = Str ''nvenc''\<rparr>]\<rparr>]]"
  "modifiedCategories edited_state = [Output]"
  "trace edited_state =
     [SetValueCalled Output videoBitrate (Num 2500), GetSettingsFormData Output,
      ValueChanged Output videoBitrate (Num 1000) (Num 2500)]"
  by (simp_all add: edited_state_def setValue_def videoBitrate_param_def new_Optimizer_def
        split_beta Let_def view_def accessor_findSetting_def set_add_def)

lemma hd_definitionParams:
  "key (hd definitionParams) = outputMode"
  "category (hd definitionParams) = Output"
  "subCategory (hd definitionParams) = ''Untitled''"
  "setting (hd definitionParams) = ''Mode''"
  "\<exists>deps. dependents (hd definitionParams) = Some deps \<and> set (dependent_categories deps) = {Output}"
  by (simp_all add: definitionParams_def dependent_categories_def)


section \<open>Reading and writing through the tree\<close>

text \<open>
  The lemmas of this section follow \<open>setValues\<close> and \<open>getValues\<close> through the tree:
  first for any accessor (a write whose values are already stored mutates nothing), then
  over \<open>storeAccessor\<close>, where the effect of each step on the stored values is known.
\<close>

lemma only_reads_refl [simp]: "only_reads acc s s"
  by (simp add: only_reads_def)

lemma only_reads_trans: "only_reads acc s s' \<Longrightarrow> only_reads acc s' s'' \<Longrightarrow> only_reads acc s s''"
  by (auto simp: only_reads_def)

lemma view_getCategory [simp]: "view acc (snd (getCategory acc c False s)) = view acc s"
  by (auto simp: view_def fun_eq_iff split: option.splits)

lemma only_reads_getCategory: "only_reads acc s (snd (getCategory acc c False s))"
  by (simp add: only_reads_def)

lemma stored_only_reads: "only_reads acc s s' \<Longrightarrow> stored acc s' = stored acc s"
  by (simp add: only_reads_def stored_def fun_eq_iff)

lemma agrees_only_reads: "only_reads acc s s' \<Longrightarrow> agrees acc s' = agrees acc s"
  by (simp add: agrees_def fun_eq_iff stored_only_reads)

lemma only_reads_setValue:
  assumes "agrees acc s item v"
  shows "only_reads acc s (setValue acc item v s)"
proof (cases "accessor_findSetting (view acc s (category item)) (subCategory item) (setting item)")
  case None
  then show ?thesis
    by (simp add: setValue_def split_beta only_reads_def)
next
  case (Some input)
  with assms have "inputValue input = v"
    by (simp add: agrees_def stored_def)
  with Some show ?thesis
    by (simp add: setValue_def split_beta only_reads_def)
qed

lemma findValue_agrees: "agrees acc s item (fst (findValue acc item s))"
  by (auto simp: agrees_def stored_def accessor_findSettingValue_def split: option.splits)

lemma settled_only_reads: "only_reads acc s s' \<Longrightarrow> settled acc t s' = settled acc t s"
  by (simp add: settled_def fun_eq_iff agrees_only_reads)

lemma iterateDependents_member:
  "b \<in> set deps \<Longrightarrow> set (iterateDefinitions (snd b)) \<subseteq> set (iterateDependents deps)"
  by (induction deps) auto

lemma setValues_only_reads:
  "(\<forall>n \<in> set (iterateDefinitions defs). settled acc t s n) \<Longrightarrow>
     only_reads acc s (setValues acc t defs s)"
  "(\<forall>n \<in> set (iterateDependents deps). settled acc t s n) \<Longrightarrow>
     (\<forall>b \<in> set deps. isDependValues t (snd b) \<longrightarrow> agrees acc s item (fst b)) \<Longrightarrow>
     only_reads acc s (setValues_dependents acc t item deps s)"
proof (induction acc t defs s and acc t item deps s rule: setValues_setValues_dependents.induct)
  case (1 acc vals s)
  then show ?case by simp
next
  case (2 acc vals item definitions s)
  let ?x = "findValue acc item s"
  let ?s' = "(case dependents item of
          Some deps \<Rightarrow>
            (let (v, s1) = findValue acc item s;
                 s2 = setValues_dependents acc vals item deps s1;
                 v' = (case vals (key item) of Some x \<Rightarrow> x | None \<Rightarrow> v)
             in setValue acc item v' s2)
        | None \<Rightarrow>
            (case vals (key item) of
               Some x \<Rightarrow> setValue acc item x s
             | None \<Rightarrow> s))"
  have it: "settled acc vals s item" using "2.prems" by simp
  have rest: "\<forall>n \<in> set (iterateDefinitions definitions). settled acc vals s n"
    using "2.prems" by simp
  have step: "only_reads acc s ?s'"
  proof (cases "dependents item")
    case None
    then show ?thesis
      using it by (auto simp: settled_def only_reads_setValue split: option.splits)
  next
    case (Some deps)
    have r1: "only_reads acc s (snd ?x)" by (simp add: only_reads_getCategory)
    have ch: "\<forall>n \<in> set (iterateDependents deps). settled acc vals (snd ?x) n"
      using "2.prems" Some settled_only_reads [OF r1] by simp
    have pv: "\<forall>b \<in> set deps. isDependValues vals (snd b) \<longrightarrow> agrees acc (snd ?x) item (fst b)"
      using it Some agrees_only_reads [OF r1] by (simp add: settled_def)
    let ?s2 = "setValues_dependents acc vals item deps (snd ?x)"
    have r2: "only_reads acc (snd ?x) ?s2"
      using "2.IH"(1) [OF Some refl prod.collapse ch pv] .
    have r02: "only_reads acc s ?s2" using r1 r2 by (rule only_reads_trans)
    have "agrees acc ?s2 item (case vals (key item) of Some x \<Rightarrow> x | None \<Rightarrow> fst ?x)"
      using it findValue_agrees [of acc s item] agrees_only_reads [OF r02]
      by (auto simp: settled_def split: option.splits)
    then have "only_reads acc ?s2
        (setValue acc item (case vals (key item) of Some x \<Rightarrow> x | None \<Rightarrow> fst ?x) ?s2)"
      by (rule only_reads_setValue)
    with r02 have "only_reads acc s
        (setValue acc item (case vals (key item) of Some x \<Rightarrow> x | None \<Rightarrow> fst ?x) ?s2)"
      by (rule only_reads_trans)
    then show ?thesis
      by (simp add: Some split_beta Let_def del: findValue_fields)
  qed
  have "\<forall>n \<in> set (iterateDefinitions definitions). settled acc vals ?s' n"
    using rest settled_only_reads [OF step] by simp
  from "2.IH"(2) [OF this] have "only_reads acc ?s' (setValues acc vals definitions ?s')" .
  with step have "only_reads acc s (setValues acc vals definitions ?s')"
    by (rule only_reads_trans)
  then show ?case by simp
next
  case (3 acc vals item s)
  then show ?case by simp
next
  case (4 acc vals item dependent deps s)
  let ?s' = "(if isDependValues vals (snd dependent)
        then setValues acc vals (snd dependent) (setValue acc item (fst dependent) s)
        else s)"
  have step: "only_reads acc s ?s'"
  proof (cases "isDependValues vals (snd dependent)")
    case False
    then show ?thesis by simp
  next
    case True
    then have "agrees acc s item (fst dependent)" using "4.prems"(2) by simp
    then have r1: "only_reads acc s (setValue acc item (fst dependent) s)"
      by (rule only_reads_setValue)
    have "\<forall>n \<in> set (iterateDefinitions (snd dependent)).
        settled acc vals (setValue acc item (fst dependent) s) n"
      using "4.prems"(1) settled_only_reads [OF r1] by simp
    from "4.IH"(1) [OF True this]
    have "only_reads acc (setValue acc item (fst dependent) s)
        (setValues acc vals (snd dependent) (setValue acc item (fst dependent) s))" .
    with r1 have "only_reads acc s
        (setValues acc vals (snd dependent) (setValue acc item (fst dependent) s))"
      by (rule only_reads_trans)
    with True show ?thesis by simp
  qed
  have a: "\<forall>n \<in> set (iterateDependents deps). settled acc vals ?s' n"
    using "4.prems"(1) settled_only_reads [OF step] by simp
  have b: "\<forall>b \<in> set deps. isDependValues vals (snd b) \<longrightarrow> agrees acc ?s' item (fst b)"
    using "4.prems"(2) agrees_only_reads [OF step] by simp
  from "4.IH"(2) [OF a b] have "only_reads acc ?s' (setValues_dependents acc vals item deps ?s')" .
  with step have "only_reads acc s (setValues_dependents acc vals item deps ?s')"
    by (rule only_reads_trans)
  then show ?case by simp
qed

lemma find_assign_parameter:
  "find (\<lambda>i. inputName i = name') (assign_parameter name v ps) =
     (if name' = name
      then map_option (\<lambda>i. i\<lparr>inputValue := v\<rparr>) (find (\<lambda>i. inputName i = name) ps)
      else find (\<lambda>i. inputName i = name') ps)"
  by (induction ps) auto

lemma find_assign_setting:
  "find (\<lambda>s. nameSubCategory s = sub') (assign_setting data sub name v) =
     (if sub' = sub
      then map_option (\<lambda>s. s\<lparr>parameters := assign_parameter name v (parameters s)\<rparr>)
             (find (\<lambda>s. nameSubCategory s = sub) data)
      else find (\<lambda>s. nameSubCategory s = sub') data)"
  by (induction data) auto

lemma findSetting_assign_setting:
  "accessor_findSetting (assign_setting data sub name v) sub' name' =
     (if sub' = sub \<and> name' = name
      then map_option (\<lambda>i. i\<lparr>inputValue := v\<rparr>) (accessor_findSetting data sub name)
      else accessor_findSetting data sub' name')"
  by (auto simp: accessor_findSetting_def find_assign_setting find_assign_parameter
        split: option.splits)

lemma stored_alt:
  "stored acc s n =
     map_option inputValue
       (accessor_findSetting (view acc s (category n)) (subCategory n) (setting n))"
  by (simp add: stored_def)

lemma stored_same_field: "field n = field m \<Longrightarrow> stored acc s n = stored acc s m"
  by (simp add: stored_def field_def)

lemma view_store: "view storeAccessor s c = (case categoryCache s c of Some d \<Rightarrow> d | None \<Rightarrow> host s c)"
  by (simp add: view_def split: option.splits)

lemma view_updateCategory [simp]:
  "view storeAccessor (updateCategory storeAccessor c s) = view storeAccessor s"
  by (auto simp: view_store fun_eq_iff split: option.splits)

lemma view_writeBackCategory [simp]:
  "view storeAccessor (writeBackCategory storeAccessor c s) = view storeAccessor s"
  by (auto simp: view_store fun_eq_iff split: option.splits)

lemma view_forgetCategoryCache:
  "in_sync s \<Longrightarrow> c \<notin> set (modifiedCategories s) \<Longrightarrow>
     view storeAccessor (forgetCategoryCache c s) = view storeAccessor s"
  by (auto simp: view_store fun_eq_iff in_sync_def split: option.splits)

lemma in_sync_getCategory:
  "in_sync s \<Longrightarrow> in_sync (snd (getCategory storeAccessor c False s))"
  by (auto simp: in_sync_def view_store split: option.splits)

lemma in_sync_emit [simp]: "in_sync (emit e s) = in_sync s"
  by (simp add: in_sync_def)

lemma in_sync_updateCategory:
  "in_sync s \<Longrightarrow> in_sync (updateCategory storeAccessor c s)"
  by (auto simp: in_sync_def split: option.splits)

lemma in_sync_writeBackCategory:
  "in_sync s \<Longrightarrow> in_sync (writeBackCategory storeAccessor c s)"
  by (auto simp: in_sync_def split: option.splits)

lemma in_sync_forgetCategoryCache:
  "in_sync s \<Longrightarrow> in_sync (forgetCategoryCache c s)"
  by (auto simp: in_sync_def split: if_splits)

lemma consistent_getCategory:
  "consistent s \<Longrightarrow> consistent (snd (getCategory storeAccessor c False s))"
  by (simp add: consistent_def dirty_cached_getCategory in_sync_getCategory)

lemma consistent_emit [simp]: "consistent (emit e s) = consistent s"
  by (simp add: consistent_def)

lemma consistent_writeBackCategory:
  "consistent s \<Longrightarrow> consistent (writeBackCategory storeAccessor c s)"
  by (simp add: consistent_def dirty_cached_writeBackCategory in_sync_writeBackCategory)

lemma consistent_forgetCategoryCache:
  "consistent s \<Longrightarrow> consistent (forgetCategoryCache c s)"
  by (simp add: consistent_def dirty_cached_forgetCategoryCache in_sync_forgetCategoryCache)

lemma fold_writeBack_store:
  "consistent s \<Longrightarrow>
     consistent (fold (writeBackCategory storeAccessor) cs s)
     \<and> view storeAccessor (fold (writeBackCategory storeAccessor) cs s) = view storeAccessor s"
  by (induction cs arbitrary: s) (simp_all add: consistent_writeBackCategory)

lemma fold_forget_store:
  "consistent s \<Longrightarrow> set cs \<inter> set (modifiedCategories s) = {} \<Longrightarrow>
     consistent (fold forgetCategoryCache cs s)
     \<and> view storeAccessor (fold forgetCategoryCache cs s) = view storeAccessor s"
proof (induction cs arbitrary: s)
  case Nil
  then show ?case by simp
next
  case (Cons c cs)
  let ?s = "forgetCategoryCache c s"
  have c: "consistent ?s" using Cons.prems(1) by (rule consistent_forgetCategoryCache)
  have v: "view storeAccessor ?s = view storeAccessor s"
    using Cons.prems by (auto simp: consistent_def intro: view_forgetCategoryCache)
  have "set (modifiedCategories ?s) \<subseteq> set (modifiedCategories s)"
    by auto
  with Cons.prems(2) have d: "set cs \<inter> set (modifiedCategories ?s) = {}" by auto
  from Cons.IH [OF c d] v show ?case by simp
qed

lemma consistent_mark:
  assumes "consistent s" and "categoryCache s (category item) \<noteq> None"
  shows "consistent ((assign_value item v s)
        \<lparr>modifiedCategories := set_add (category item) (modifiedCategories (assign_value item v s))\<rparr>)"
proof -
  have "in_sync ((assign_value item v s)
        \<lparr>modifiedCategories := set_add (category item) (modifiedCategories (assign_value item v s))\<rparr>)"
    using assms by (auto simp: consistent_def in_sync_def set_add_def split: option.splits if_splits)
  then show ?thesis
    using assms dirty_cached_mark [of s item v] by (simp add: consistent_def)
qed

lemma view_mark:
  assumes "categoryCache s (category item) \<noteq> None"
  shows "view storeAccessor ((assign_value item v s)
        \<lparr>modifiedCategories := set_add (category item) (modifiedCategories (assign_value item v s))\<rparr>)
      = (view storeAccessor s)
          (category item := assign_setting (view storeAccessor s (category item))
                              (subCategory item) (setting item) v)"
  using assms by (auto simp: view_store fun_eq_iff split: option.splits)

lemma setValue_store:
  assumes "consistent s"
  shows "consistent (setValue storeAccessor item v s)"
    and "view storeAccessor (setValue storeAccessor item v s) =
      (case accessor_findSetting (view storeAccessor s (category item))
              (subCategory item) (setting item) of
         None \<Rightarrow> view storeAccessor s
       | Some input \<Rightarrow>
           if inputValue input \<noteq> v
           then (view storeAccessor s)
                  (category item := assign_setting (view storeAccessor s (category item))
                                      (subCategory item) (setting item) v)
           else view storeAccessor s)"
proof -
  let ?acc = "storeAccessor"
  let ?c = "category item"
  let ?s0 = "emit (SetValueCalled ?c (key item) v) s"
  let ?s1 = "snd (getCategory ?acc ?c False ?s0)"
  have k1: "consistent ?s1" using assms by (simp add: consistent_getCategory)
  have v1: "view ?acc ?s1 = view ?acc s" by simp
  show "consistent (setValue storeAccessor item v s)"
    and "view storeAccessor (setValue storeAccessor item v s) =
      (case accessor_findSetting (view storeAccessor s (category item))
              (subCategory item) (setting item) of
         None \<Rightarrow> view storeAccessor s
       | Some input \<Rightarrow>
           if inputValue input \<noteq> v
           then (view storeAccessor s)
                  (category item := assign_setting (view storeAccessor s (category item))
                                      (subCategory item) (setting item) v)
           else view storeAccessor s)"
  proof (atomize (full), cases "accessor_findSetting (view ?acc s ?c) (subCategory item) (setting item)")
    case None
    then show "consistent (setValue storeAccessor item v s) \<and>
      view storeAccessor (setValue storeAccessor item v s) =
      (case accessor_findSetting (view storeAccessor s (category item))
              (subCategory item) (setting item) of
         None \<Rightarrow> view storeAccessor s
       | Some input \<Rightarrow>
           if inputValue input \<noteq> v
           then (view storeAccessor s)
                  (category item := assign_setting (view storeAccessor s (category item))
                                      (subCategory item) (setting item) v)
           else view storeAccessor s)"
      using k1 by (simp add: setValue_def split_beta)
  next
    case (Some input)
    show "consistent (setValue storeAccessor item v s) \<and>
      view storeAccessor (setValue storeAccessor item v s) =
      (case accessor_findSetting (view storeAccessor s (category item))
              (subCategory item) (setting item) of
         None \<Rightarrow> view storeAccessor s
       | Some input \<Rightarrow>
           if inputValue input \<noteq> v
           then (view storeAccessor s)
                  (category item := assign_setting (view storeAccessor s (category item))
                                      (subCategory item) (setting item) v)
           else view storeAccessor s)"
    proof (cases "inputValue input = v")
      case True
      with Some k1 show ?thesis by (simp add: setValue_def split_beta)
    next
      case False
      define cs where "cs = (case dependents item of None \<Rightarrow> [] | Some deps \<Rightarrow> dependent_categories deps)"
      let ?s2 = "fold (writeBackCategory ?acc) cs ?s1"
      let ?e = "emit (ValueChanged ?c (key item) (inputValue input) v) ?s2"
      let ?s4 = "(assign_value item v ?e)
          \<lparr>modifiedCategories := set_add ?c (modifiedCategories (assign_value item v ?e))\<rparr>"
      have k2: "consistent ?s2" and v2: "view ?acc ?s2 = view ?acc s"
        using fold_writeBack_store [OF k1, of cs] v1 by simp_all
      have c2: "categoryCache ?e ?c \<noteq> None" by simp
      have k4: "consistent ?s4"
        using consistent_mark [of ?e item v] k2 c2 by simp
      have v4: "view ?acc ?s4 = (view ?acc s)(?c := assign_setting (view ?acc s ?c)
                              (subCategory item) (setting item) v)"
        using view_mark [OF c2, of v] v2 by simp
      show ?thesis
      proof (cases "dependents item")
        case None
        then have "setValue ?acc item v s = ?s4"
          using Some False by (simp add: setValue_def split_beta Let_def cs_def)
        with k4 v4 Some False show ?thesis by simp
      next
        case d: (Some deps)
        let ?s5 = "writeBackCategory ?acc ?c ?s4"
        have cs: "cs = dependent_categories deps" by (simp add: cs_def d)
        have run: "setValue ?acc item v s = fold forgetCategoryCache cs ?s5"
          using Some False d by (simp add: setValue_def split_beta Let_def cs)
        have k5: "consistent ?s5" using k4 by (rule consistent_writeBackCategory)
        have v5: "view ?acc ?s5 = view ?acc ?s4" by simp
        have "set (modifiedCategories ?s5) \<inter> set cs = {}"
          by (auto simp: set_add_def)
        then have "set cs \<inter> set (modifiedCategories ?s5) = {}" by blast
        from fold_forget_store [OF k5 this] run v5 v4 Some False show ?thesis
          by simp
      qed
    qed
  qed
qed

lemma stored_setValue:
  assumes "consistent s"
  shows "sv (setValue storeAccessor item v s) n =
           (if field n = field item \<and> sv s item \<noteq> None then Some v else sv s n)"
proof (cases "accessor_findSetting (view storeAccessor s (category item))
                (subCategory item) (setting item)")
  case None
  then have "sv s item = None" by (simp add: stored_def)
  with None show ?thesis
    by (simp add: stored_def setValue_store(2) [OF assms])
next
  case (Some input)
  then have f: "sv s item = Some (inputValue input)" by (simp add: stored_def)
  show ?thesis
  proof (cases "inputValue input = v")
    case True
    have "field n = field item \<Longrightarrow> sv s n = Some v"
      using stored_same_field [of n item storeAccessor s] f True by simp
    with Some True f show ?thesis
      by (auto simp: stored_def setValue_store(2) [OF assms])
  next
    case False
    with Some f show ?thesis
      by (auto simp: stored_def setValue_store(2) [OF assms] field_def
            findSetting_assign_setting)
  qed
qed

lemma stored_getCategory [simp]:
  "stored acc (snd (getCategory acc c False s)) = stored acc s"
  by (simp add: stored_def fun_eq_iff)

lemma findValue_value_of: "fst (findValue acc item s) = value_of (stored acc s item)"
  by (simp add: value_of_def stored_def accessor_findSettingValue_def split: option.splits)

lemma isDependValues_iff:
  "isDependValues t defs = (\<exists>m \<in> set (iterateDefinitions defs). t (key m) \<noteq> None)"
  "isDependValues_dependents t deps = (\<exists>m \<in> set (iterateDependents deps). t (key m) \<noteq> None)"
  by (induction t defs and t deps rule: isDependValues_isDependValues_dependents.induct)
     (force split: option.splits)+

lemma setValues_preserves_in:
  assumes g: "\<And>acc c s. P acc s \<Longrightarrow> P acc (snd (getCategory acc c False s))"
    and v: "\<And>acc item v s. item \<in> A \<Longrightarrow> P acc s \<Longrightarrow> P acc (setValue acc item v s)"
  shows "set (iterateDefinitions defs) \<subseteq> A \<Longrightarrow> P acc s \<Longrightarrow> P acc (setValues acc t defs s)"
    and "item \<in> A \<Longrightarrow> set (iterateDependents deps) \<subseteq> A \<Longrightarrow> P acc s \<Longrightarrow>
         P acc (setValues_dependents acc t item deps s)"
proof (induction acc t defs s and acc t item deps s
    rule: setValues_setValues_dependents.induct)
  case (1 acc vals s)
  then show ?case by simp
next
  case (2 acc vals item definitions s)
  let ?x = "findValue acc item s"
  have p1: "P acc (snd ?x)" using g "2.prems" by simp
  have ia: "item \<in> A" using "2.prems"(1) by simp
  have ra: "set (iterateDefinitions definitions) \<subseteq> A" using "2.prems"(1) by simp
  show ?case
  proof (cases "dependents item")
    case None
    have "P acc (case vals (key item) of Some x \<Rightarrow> setValue acc item x s | None \<Rightarrow> s)"
      using "2.prems"(2) v [OF ia] by (simp split: option.splits)
    with "2.IH"(2) [OF ra] show ?thesis by (simp add: None)
  next
    case (Some deps)
    have da: "set (iterateDependents deps) \<subseteq> A" using "2.prems"(1) Some by simp
    have "P acc (setValues_dependents acc vals item deps (snd ?x))"
      using "2.IH"(1) [OF Some refl prod.collapse ia da] p1 by (simp del: findValue_fields)
    then have "P acc (setValue acc item v' (setValues_dependents acc vals item deps (snd ?x)))" for v'
      by (rule v [OF ia])
    with "2.IH"(2) [OF ra] show ?thesis
      by (simp add: Some split_beta Let_def del: findValue_fields)
  qed
next
  case (3 acc vals item s)
  then show ?case by simp
next
  case (4 acc vals item dependent deps s)
  have ca: "set (iterateDefinitions (snd dependent)) \<subseteq> A" using "4.prems"(2) by simp
  have da: "set (iterateDependents deps) \<subseteq> A" using "4.prems"(2) by simp
  have "P acc (setValue acc item (fst dependent) s)" using "4.prems"(1,3) by (rule v)
  then have "isDependValues vals (snd dependent) \<Longrightarrow>
      P acc (setValues acc vals (snd dependent) (setValue acc item (fst dependent) s))"
    using "4.IH"(1) [OF _ ca] by blast
  then show ?case
    using "4.IH"(2) [OF "4.prems"(1) da] "4.prems"(3) by simp
qed

lemma getValues_preserves_in:
  assumes g: "\<And>acc c s. P acc s \<Longrightarrow> P acc (snd (getCategory acc c False s))"
    and v: "\<And>acc item v s. item \<in> A \<Longrightarrow> P acc s \<Longrightarrow> P acc (setValue acc item v s)"
  shows "set (iterateDefinitions defs) \<subseteq> A \<Longrightarrow> P acc s \<Longrightarrow> P acc (snd (getValues acc defs s))"
    and "item \<in> A \<Longrightarrow> set (iterateDependents deps) \<subseteq> A \<Longrightarrow> P acc s \<Longrightarrow>
         P acc (snd (getValues_dependents acc item deps s))"
proof (induction acc defs s and acc item deps s rule: getValues_getValues_dependents.induct)
  case (1 acc s)
  then show ?case by simp
next
  case (2 acc item definitions s)
  let ?x = "findValue acc item s"
  have p1: "P acc (snd ?x)" using g "2.prems" by simp
  have ia: "item \<in> A" using "2.prems"(1) by simp
  have ra: "set (iterateDefinitions definitions) \<subseteq> A" using "2.prems"(1) by simp
  show ?case
  proof (cases "dependents item")
    case None
    with "2.IH"(2) [OF refl prod.collapse refl prod.collapse ra] p1 show ?thesis
      unfolding getValues_Cons_state by (simp add: None del: findValue_fields)
  next
    case (Some deps)
    have da: "set (iterateDependents deps) \<subseteq> A" using "2.prems"(1) Some by simp
    have "P acc (snd (getValues_dependents acc item deps (snd ?x)))"
      using "2.IH"(1) [OF refl prod.collapse Some ia da] p1 by (simp del: findValue_fields)
    then have "P acc (setValue acc item (fst ?x) (snd (getValues_dependents acc item deps (snd ?x))))"
      by (rule v [OF ia])
    with "2.IH"(2) [OF refl prod.collapse refl prod.collapse ra] show ?thesis
      unfolding getValues_Cons_state by (simp add: Some split_beta del: findValue_fields)
  qed
next
  case (3 acc item s)
  then show ?case by simp
next
  case (4 acc item dependent deps s)
  have ca: "set (iterateDefinitions (snd dependent)) \<subseteq> A" using "4.prems"(2) by simp
  have da: "set (iterateDependents deps) \<subseteq> A" using "4.prems"(2) by simp
  have "P acc (setValue acc item (fst dependent) s)" using "4.prems"(1,3) by (rule v)
  then have "P acc (snd (getValues acc (snd dependent) (setValue acc item (fst dependent) s)))"
    by (rule "4.IH"(1) [OF ca])
  then show ?case
    unfolding getValues_dependents_Cons_state
    by (rule "4.IH"(2) [OF refl prod.collapse "4.prems"(1) da])
qed

lemma frame_refl: "consistent s \<Longrightarrow> frame F s s"
  by (simp add: frame_def)

lemma frame_getCategory:
  "frame F s s' \<Longrightarrow> frame F s (snd (getCategory storeAccessor c False s'))"
  by (simp add: frame_def consistent_getCategory)

lemma frame_setValue:
  assumes "field item \<in> F" and "frame F s s'"
  shows "frame F s (setValue storeAccessor item v s')"
proof -
  have k: "consistent s'" using assms(2) by (simp add: frame_def)
  have a: "sv (setValue storeAccessor item v s') n =
      (if field n = field item \<and> sv s' item \<noteq> None then Some v else sv s' n)" for n
    by (rule stored_setValue [OF k])
  have same: "field n = field item \<Longrightarrow> sv s' n = sv s' item" for n
    by (rule stored_same_field)
  have 1: "field n \<notin> F \<Longrightarrow> sv (setValue storeAccessor item v s') n = sv s n" for n
    using assms by (auto simp: a frame_def)
  have 2: "(sv (setValue storeAccessor item v s') n = None) = (sv s n = None)" for n
  proof (cases "field n = field item \<and> sv s' item \<noteq> None")
    case True
    then have "sv s' n \<noteq> None" using same [of n] by simp
    moreover have "(sv s' n = None) = (sv s n = None)"
      using assms(2) unfolding frame_def by blast
    ultimately have "sv s n \<noteq> None" by simp
    with True show ?thesis by (simp add: a)
  next
    case False
    then have "sv (setValue storeAccessor item v s') n = sv s' n" by (auto simp: a)
    moreover have "(sv s' n = None) = (sv s n = None)"
      using assms(2) unfolding frame_def by blast
    ultimately show ?thesis by simp
  qed
  show ?thesis
    unfolding frame_def
  proof (intro conjI allI impI)
    show "consistent (setValue storeAccessor item v s')" by (rule setValue_store(1) [OF k])
  next
    fix n assume "field n \<notin> F"
    then show "sv (setValue storeAccessor item v s') n = sv s n" by (rule 1)
  next
    fix n show "(sv (setValue storeAccessor item v s') n = None) = (sv s n = None)" by (rule 2)
  qed
qed

lemma frame_setValues:
  assumes "consistent s"
  shows "frame (field ` set (iterateDefinitions defs)) s (setValues storeAccessor t defs s)"
proof -
  let ?A = "set (iterateDefinitions defs)"
  let ?P = "\<lambda>acc s'. acc = storeAccessor \<longrightarrow> frame (field ` ?A) s s'"
  have "?P storeAccessor (setValues storeAccessor t defs s)"
  proof (rule setValues_preserves_in(1) [where P = ?P and A = ?A])
    fix acc c s'
    assume "?P acc s'"
    then show "?P acc (snd (getCategory acc c False s'))"
      using frame_getCategory by blast
  next
    fix acc item v s'
    assume "item \<in> ?A" and "?P acc s'"
    then show "?P acc (setValue acc item v s')"
      using frame_setValue [of item "field ` ?A" s s' v] by blast
  next
    show "?A \<subseteq> ?A" by simp
  next
    show "?P storeAccessor s" using assms by (simp add: frame_refl)
  qed
  then show ?thesis by simp
qed

lemma frame_setValues_dependents:
  assumes "consistent s"
  shows "frame (insert (field item) (field ` set (iterateDependents deps))) s
           (setValues_dependents storeAccessor t item deps s)"
proof -
  let ?A = "insert item (set (iterateDependents deps))"
  let ?P = "\<lambda>acc s'. acc = storeAccessor \<longrightarrow> frame (field ` ?A) s s'"
  have "?P storeAccessor (setValues_dependents storeAccessor t item deps s)"
  proof (rule setValues_preserves_in(2) [where P = ?P and A = ?A])
    fix acc c s'
    assume "?P acc s'"
    then show "?P acc (snd (getCategory acc c False s'))"
      using frame_getCategory by blast
  next
    fix acc item' v s'
    assume "item' \<in> ?A" and "?P acc s'"
    then show "?P acc (setValue acc item' v s')"
      using frame_setValue [of item' "field ` ?A" s s' v] by blast
  next
    show "item \<in> ?A" by simp
  next
    show "set (iterateDependents deps) \<subseteq> ?A" by blast
  next
    show "?P storeAccessor s" using assms by (simp add: frame_refl)
  qed
  then show ?thesis by simp
qed

lemma frameD:
  assumes "frame F s s'"
  shows "consistent s'"
    and "field n \<notin> F \<Longrightarrow> sv s' n = sv s n"
    and "(sv s' n = None) = (sv s n = None)"
  using assms unfolding frame_def by blast+

lemma setValues_Cons:
  "setValues acc t (item # defs) s = setValues acc t defs (setValues acc t [item] s)"
  by simp

lemma setValues_dependents_Cons:
  "setValues_dependents acc t item (d # deps) s =
     setValues_dependents acc t item deps (setValues_dependents acc t item [d] s)"
  by simp

lemma written_unnamed: "t (key m) = None \<Longrightarrow> written t old m = old"
  by (simp add: written_def split: option.splits)

lemma setValues_result:
  "acc = storeAccessor \<Longrightarrow> consistent s \<Longrightarrow> distinct (map field (iterateDefinitions defs)) \<Longrightarrow>
     m \<in> set (iterateDefinitions defs) \<Longrightarrow>
     sv (setValues acc t defs s) m = written t (sv s m) m"
  "acc = storeAccessor \<Longrightarrow> consistent s \<Longrightarrow> distinct (map field (iterateDependents deps)) \<Longrightarrow>
     field item \<notin> field ` set (iterateDependents deps) \<Longrightarrow>
     m \<in> set (iterateDependents deps) \<Longrightarrow>
     sv (setValues_dependents acc t item deps s) m = written t (sv s m) m"
proof (induction acc t defs s and acc t item deps s arbitrary: m and m
    rule: setValues_setValues_dependents.induct)
  case (1 acc vals s)
  then show ?case by simp
next
  case (2 acc vals item definitions s)
  note acc = \<open>acc = storeAccessor\<close>
  let ?si = "setValues acc vals [item] s"
  let ?ch = "case dependents item of None \<Rightarrow> [] | Some ds \<Rightarrow> iterateDependents ds"
  have flat: "iterateDefinitions [item] = item # ?ch" by simp
  have fi: "frame (field ` set (item # ?ch)) s ?si"
    using frame_setValues [OF "2.prems"(2), of "[item]" vals] acc by (simp only: flat)
  have ki: "consistent ?si" using fi by (rule frameD(1))
  have fr: "frame (field ` set (iterateDefinitions definitions)) ?si (setValues acc vals definitions ?si)"
    using frame_setValues [OF ki] acc by simp
  have d_item: "field item \<notin> field ` set ?ch" "field item \<notin> field ` set (iterateDefinitions definitions)"
    and d_ch: "distinct (map field ?ch)"
    and d_rest: "distinct (map field (iterateDefinitions definitions))"
    and d_cr: "field ` set ?ch \<inter> field ` set (iterateDefinitions definitions) = {}"
    using "2.prems"(3) by auto
  have run: "setValues acc vals (item # definitions) s = setValues acc vals definitions ?si"
    by (rule setValues_Cons)
  consider (rest) "m \<in> set (iterateDefinitions definitions)"
    | (item) "m = item" | (child) "m \<in> set ?ch"
    using "2.prems"(4) by auto
  then show ?case
  proof cases
    case rest
    have im: "field m \<in> field ` set (iterateDefinitions definitions)"
      using rest by (rule imageI)
    have "field m \<noteq> field item" using im d_item(2) by metis
    moreover have "field m \<notin> field ` set ?ch" using im d_cr by blast
    ultimately have "field m \<notin> field ` set (item # ?ch)"
      unfolding list.set image_insert by blast
    then have "sv ?si m = sv s m" by (rule frameD(2) [OF fi])
    moreover have "sv (setValues acc vals definitions ?si) m = written vals (sv ?si m) m"
      using "2.IH"(2) [OF acc _ d_rest rest] ki by simp
    ultimately show ?thesis unfolding run by simp
  next
    case item
    have "sv (setValues acc vals definitions ?si) item = sv ?si item"
      using frameD(2) [OF fr] d_item(2) by blast
    moreover have "sv ?si item = written vals (sv s item) item"
    proof (cases "dependents item")
      case None
      show ?thesis
      proof (cases "vals (key item)")
        case n: None
        then have "?si = s" by (simp add: None)
        then show ?thesis by (simp add: written_unnamed n)
      next
        case (Some x)
        then have "?si = setValue storeAccessor item x s" using acc by (simp add: None)
        then have "sv ?si item = (if sv s item \<noteq> None then Some x else sv s item)"
          using stored_setValue [OF "2.prems"(2), of item x item] by simp
        then show ?thesis
          by (cases "sv s item") (simp_all add: written_def Some)
      qed
    next
      case (Some deps)
      define s1 where "s1 = snd (findValue acc item s)"
      define s2 where "s2 = setValues_dependents acc vals item deps s1"
      define v' where "v' = (case vals (key item) of Some x \<Rightarrow> x
                             | None \<Rightarrow> fst (findValue acc item s))"
      have k1: "consistent s1"
        using "2.prems"(2) acc by (simp add: s1_def consistent_getCategory)
      have s1s: "sv s1 = sv s" using acc by (simp add: s1_def)
      have f2: "frame (insert (field item) (field ` set (iterateDependents deps))) s1 s2"
        using frame_setValues_dependents [OF k1] acc by (simp add: s2_def)
      have k2: "consistent s2" using f2 by (rule frameD(1))
      have n2: "(sv s2 item = None) = (sv s item = None)"
        using frameD(3) [OF f2, of item] by (simp only: s1s)
      have si: "?si = setValue acc item v' s2"
        by (simp add: Some split_beta Let_def s1_def s2_def v'_def del: findValue_fields)
      have e: "sv ?si item = (if sv s2 item \<noteq> None then Some v' else sv s2 item)"
        unfolding si using stored_setValue [OF k2, of item v' item] acc by simp
      have fv: "fst (findValue acc item s) = value_of (sv s item)"
        unfolding acc by (rule findValue_value_of)
      show ?thesis
      proof (cases "sv s item")
        case None
        then have "sv s2 item = None" using n2 by simp
        then have "sv ?si item = None" by (simp only: e) simp
        then show ?thesis by (simp only: None written_def option.case)
      next
        case (Some y)
        then have "sv s2 item \<noteq> None" using n2 by simp
        then have "sv ?si item = Some v'" by (simp only: e) simp
        moreover have "v' = (case vals (key item) of Some x \<Rightarrow> x | None \<Rightarrow> y)"
          by (simp only: v'_def fv Some value_of_def option.case)
        ultimately show ?thesis by (simp only: Some written_def option.case)
      qed
    qed
    ultimately show ?thesis unfolding run using item by simp
  next
    case child
    then obtain deps where Some: "dependents item = Some deps"
      and mc: "m \<in> set (iterateDependents deps)"
      by (cases "dependents item") auto
    have ch: "?ch = iterateDependents deps" by (simp add: Some)
    define s1 where "s1 = snd (findValue acc item s)"
    define s2 where "s2 = setValues_dependents acc vals item deps s1"
    define v' where "v' = (case vals (key item) of Some x \<Rightarrow> x
                           | None \<Rightarrow> fst (findValue acc item s))"
    have k1: "consistent s1"
      using "2.prems"(2) acc by (simp add: s1_def consistent_getCategory)
    have s1s: "sv s1 = sv s" using acc by (simp add: s1_def)
    have f2: "frame (insert (field item) (field ` set (iterateDependents deps))) s1 s2"
      using frame_setValues_dependents [OF k1] acc by (simp add: s2_def)
    have k2: "consistent s2" using f2 by (rule frameD(1))
    have si: "?si = setValue acc item v' s2"
      by (simp add: Some split_beta Let_def s1_def s2_def v'_def del: findValue_fields)
    have mch: "field m \<in> field ` set ?ch" using child by (rule imageI)
    have ne: "field m \<noteq> field item" using d_item(1) mch by metis
    have "field m \<notin> field ` set (iterateDefinitions definitions)"
      using d_cr mch by blast
    then have "sv (setValues acc vals definitions ?si) m = sv ?si m"
      by (rule frameD(2) [OF fr])
    moreover have "sv ?si m = sv s2 m"
      unfolding si using stored_setValue [OF k2, of item v' m] ne acc by simp
    moreover have "sv s2 m = written vals (sv s1 m) m"
      unfolding s2_def s1_def
    proof (rule "2.IH"(1) [OF Some refl prod.collapse acc _ _ _ mc])
      show "consistent (snd (findValue acc item s))" using k1 unfolding s1_def .
      show "distinct (map field (iterateDependents deps))" using d_ch unfolding ch .
      show "field item \<notin> field ` set (iterateDependents deps)" using d_item(1) unfolding ch .
    qed
    ultimately show ?thesis unfolding run by (simp only: s1s)
  qed
next
  case (3 acc vals item s)
  then show ?case by simp
next
  case (4 acc vals item dependent deps s)
  note acc = \<open>acc = storeAccessor\<close>
  let ?sb = "setValues_dependents acc vals item [dependent] s"
  let ?ch = "iterateDefinitions (snd dependent)"
  have flat: "iterateDependents [dependent] = ?ch" by simp
  have fb: "frame (insert (field item) (field ` set ?ch)) s ?sb"
    using frame_setValues_dependents [OF "4.prems"(2), of item "[dependent]" vals] acc
    by (simp only: flat)
  have kb: "consistent ?sb" using fb by (rule frameD(1))
  have fr: "frame (insert (field item) (field ` set (iterateDependents deps))) ?sb
              (setValues_dependents acc vals item deps ?sb)"
    using frame_setValues_dependents [OF kb] acc by simp
  have d_ch: "distinct (map field ?ch)"
    and d_rest: "distinct (map field (iterateDependents deps))"
    and d_cr: "field ` set ?ch \<inter> field ` set (iterateDependents deps) = {}"
    using "4.prems"(3) by auto
  have i_ch: "field item \<notin> field ` set ?ch"
    and i_rest: "field item \<notin> field ` set (iterateDependents deps)"
    using "4.prems"(4) by auto
  have run: "setValues_dependents acc vals item (dependent # deps) s =
      setValues_dependents acc vals item deps ?sb"
    by (rule setValues_dependents_Cons)
  consider (child) "m \<in> set ?ch" | (rest) "m \<in> set (iterateDependents deps)"
    using "4.prems"(5) by auto
  then show ?case
  proof cases
    case child
    have mch: "field m \<in> field ` set ?ch" using child by (rule imageI)
    have ne: "field m \<noteq> field item" using i_ch mch by metis
    have "field m \<notin> field ` set (iterateDependents deps)" using d_cr mch by blast
    then have "field m \<notin> insert (field item) (field ` set (iterateDependents deps))"
      using ne by blast
    then have "sv (setValues_dependents acc vals item deps ?sb) m = sv ?sb m"
      by (rule frameD(2) [OF fr])
    moreover have "sv ?sb m = written vals (sv s m) m"
    proof (cases "isDependValues vals (snd dependent)")
      case True
      let ?sp = "setValue acc item (fst dependent) s"
      have kp: "consistent ?sp" using "4.prems"(2) acc by (simp add: setValue_store(1))
      have "sv ?sp m = sv s m"
        using stored_setValue [OF "4.prems"(2), of item "fst dependent" m] acc ne by simp
      moreover have "sv (setValues acc vals (snd dependent) ?sp) m = written vals (sv ?sp m) m"
        using "4.IH"(1) [OF True acc kp d_ch child] .
      ultimately show ?thesis using True by simp
    next
      case False
      then have "vals (key m) = None"
        using child by (auto simp: isDependValues_iff)
      then show ?thesis using False by (simp add: written_unnamed)
    qed
    ultimately show ?thesis unfolding run by simp
  next
    case rest
    have mr: "field m \<in> field ` set (iterateDependents deps)" using rest by (rule imageI)
    have "field m \<noteq> field item" using i_rest mr by metis
    moreover have "field m \<notin> field ` set ?ch" using d_cr mr by blast
    ultimately have "field m \<notin> insert (field item) (field ` set ?ch)"
      by blast
    then have "sv ?sb m = sv s m" by (rule frameD(2) [OF fb])
    moreover have "sv (setValues_dependents acc vals item deps ?sb) m = written vals (sv ?sb m) m"
      using "4.IH"(2) [OF acc _ d_rest i_rest rest] kb by simp
    ultimately show ?thesis unfolding run by simp
  qed
qed

lemma getValues_keys:
  "map fst (fst (getValues acc defs s)) = map key (iterateDefinitions defs)"
  "map fst (fst (getValues_dependents acc item deps s)) = map key (iterateDependents deps)"
proof (induction acc defs s and acc item deps s rule: getValues_getValues_dependents.induct)
  case (1 acc s)
  then show ?case by simp
next
  case (2 acc item definitions s)
  show ?case
  proof (cases "dependents item")
    case None
    with "2.IH"(2) [OF refl prod.collapse refl prod.collapse] show ?thesis
      by (simp add: split_beta Let_def del: findValue_fields)
  next
    case (Some deps)
    with "2.IH"(1) [OF refl prod.collapse Some] "2.IH"(2) [OF refl prod.collapse refl prod.collapse]
    show ?thesis
      by (simp add: split_beta Let_def del: findValue_fields)
  qed
next
  case (3 acc item s)
  then show ?case by simp
next
  case (4 acc item dependent deps s)
  with "4.IH"(1) "4.IH"(2) [OF refl prod.collapse] show ?case
    by (simp add: split_beta Let_def)
qed

lemma getValues_Cons:
  "fst (getValues acc (item # defs) s) =
     fst (getValues acc [item] s) @ fst (getValues acc defs (snd (getValues acc [item] s)))"
  "snd (getValues acc (item # defs) s) = snd (getValues acc defs (snd (getValues acc [item] s)))"
  by (simp_all add: split_beta Let_def del: findValue_fields)

lemma getValues_single:
  "fst (getValues acc [item] s) =
     (key item, fst (findValue acc item s)) #
       (case dependents item of None \<Rightarrow> []
        | Some deps \<Rightarrow> fst (getValues_dependents acc item deps (snd (findValue acc item s))))"
  "snd (getValues acc [item] s) =
     (case dependents item of None \<Rightarrow> snd (findValue acc item s)
      | Some deps \<Rightarrow>
          setValue acc item (fst (findValue acc item s))
            (snd (getValues_dependents acc item deps (snd (findValue acc item s)))))"
  by (simp_all add: split_beta Let_def del: findValue_fields split: option.splits)

lemma getValues_dependents_Cons:
  "fst (getValues_dependents acc item (d # deps) s) =
     fst (getValues acc (snd d) (setValue acc item (fst d) s))
       @ fst (getValues_dependents acc item deps
                (snd (getValues acc (snd d) (setValue acc item (fst d) s))))"
  by (simp add: split_beta Let_def)

lemma getValues_restore:
  "acc = storeAccessor \<Longrightarrow> consistent s \<Longrightarrow>
     consistent (snd (getValues acc defs s)) \<and> sv (snd (getValues acc defs s)) = sv s"
  "acc = storeAccessor \<Longrightarrow> consistent s \<Longrightarrow>
     consistent (snd (getValues_dependents acc item deps s))
     \<and> (\<forall>n. field n \<noteq> field item \<longrightarrow> sv (snd (getValues_dependents acc item deps s)) n = sv s n)
     \<and> ((sv (snd (getValues_dependents acc item deps s)) item = None) = (sv s item = None))"
proof (induction acc defs s and acc item deps s rule: getValues_getValues_dependents.induct)
  case (1 acc s)
  then show ?case by simp
next
  case (2 acc item definitions s)
  note acc = \<open>acc = storeAccessor\<close>
  define s1 where "s1 = snd (findValue acc item s)"
  define v where "v = fst (findValue acc item s)"
  define s2 where "s2 = snd (getValues acc [item] s)"
  have k1: "consistent s1" using "2.prems" by (simp add: s1_def consistent_getCategory)
  have s1s: "sv s1 = sv s" using acc by (simp add: s1_def)
  have v: "v = value_of (sv s item)" unfolding v_def acc by (rule findValue_value_of)
  have s2_eq: "s2 = (case dependents item of None \<Rightarrow> s1
      | Some deps \<Rightarrow> setValue acc item v (snd (getValues_dependents acc item deps s1)))"
    by (simp only: s2_def getValues_single(2) s1_def v_def)
  have 2: "consistent s2 \<and> sv s2 = sv s"
  proof (cases "dependents item")
    case None
    then have "s2 = s1" by (simp only: s2_eq option.case)
    then show ?thesis using k1 s1s by simp
  next
    case (Some deps)
    define sd where "sd = snd (getValues_dependents acc item deps s1)"
    have ih: "consistent sd \<and> (\<forall>n. field n \<noteq> field item \<longrightarrow> sv sd n = sv s1 n)
        \<and> ((sv sd item = None) = (sv s1 item = None))"
      unfolding sd_def s1_def
      by (rule "2.IH"(1) [OF refl prod.collapse Some acc]) (use k1 in \<open>simp only: s1_def\<close>)
    have s2: "s2 = setValue acc item v sd"
      by (simp only: s2_eq Some option.case sd_def)
    have kd: "consistent sd" using ih by blast
    have e: "sv s2 n = (if field n = field item \<and> sv sd item \<noteq> None then Some v else sv sd n)" for n
      unfolding s2 using stored_setValue [OF kd, of item v n] acc by simp
    have "sv s2 n = sv s n" for n
    proof (cases "field n = field item")
      case False
      then have "sv s2 n = sv sd n" by (simp add: e)
      also have "\<dots> = sv s1 n" using ih False by blast
      finally show ?thesis by (simp only: s1s)
    next
      case True
      have sn: "sv s n = sv s item" "sv sd n = sv sd item"
        using True by (rule stored_same_field)+
      show ?thesis
      proof (cases "sv s item")
        case None
        then have "sv sd item = None" using ih s1s by simp
        then show ?thesis using sn None by (simp add: e)
      next
        case (Some y)
        then have "sv sd item \<noteq> None" using ih s1s by simp
        then have "sv s2 n = Some v" using True by (simp add: e)
        then show ?thesis using sn Some by (simp add: v value_of_def)
      qed
    qed
    then have "sv s2 = sv s" by (rule ext)
    moreover have "consistent s2" unfolding s2 using setValue_store(1) [OF kd] acc by simp
    ultimately show ?thesis by simp
  qed
  have s2_ih: "s2 = snd (case dependents item of None \<Rightarrow> ([], snd (findValue acc item s))
      | Some deps \<Rightarrow>
          let (ys, s') = getValues_dependents acc item deps (snd (findValue acc item s))
          in (ys, setValue acc item (fst (findValue acc item s)) s'))"
    by (simp only: s2_eq s1_def v_def split_beta Let_def snd_conv split: option.splits) simp
  have ih2: "consistent (snd (getValues acc definitions s2))
      \<and> sv (snd (getValues acc definitions s2)) = sv s2"
    unfolding s2_ih
    by (rule "2.IH"(2) [OF refl prod.collapse refl prod.collapse acc])
       (use 2 in \<open>simp only: s2_ih\<close>)
  have run: "snd (getValues acc (item # definitions) s) = snd (getValues acc definitions s2)"
    unfolding s2_def by (rule getValues_Cons(2))
  show ?case
    unfolding run using ih2 2 by simp
next
  case (3 acc item s)
  then show ?case by simp
next
  case (4 acc item dependent deps s)
  note acc = \<open>acc = storeAccessor\<close>
  define sp where "sp = setValue acc item (fst dependent) s"
  define sc where "sc = snd (getValues acc (snd dependent) sp)"
  have kp: "consistent sp" using "4.prems" by (simp add: sp_def setValue_store(1))
  have ep: "sv sp n = (if field n = field item \<and> sv s item \<noteq> None then Some (fst dependent)
      else sv s n)" for n
    unfolding sp_def using stored_setValue [OF "4.prems"(2), of item "fst dependent" n] acc by simp
  have ih1: "consistent sc \<and> sv sc = sv sp"
    unfolding sc_def sp_def using "4.IH"(1) [OF acc] kp by (simp add: sp_def)
  have ih2: "consistent (snd (getValues_dependents acc item deps sc))
     \<and> (\<forall>n. field n \<noteq> field item \<longrightarrow> sv (snd (getValues_dependents acc item deps sc)) n = sv sc n)
     \<and> ((sv (snd (getValues_dependents acc item deps sc)) item = None) = (sv sc item = None))"
    unfolding sc_def sp_def
    by (rule "4.IH"(2) [OF refl prod.collapse acc]) (use ih1 in \<open>simp add: sc_def sp_def\<close>)
  have run: "snd (getValues_dependents acc item (dependent # deps) s) =
      snd (getValues_dependents acc item deps sc)"
    unfolding sc_def sp_def by (rule getValues_dependents_Cons_state)
  have a: "field n \<noteq> field item \<Longrightarrow> sv sc n = sv s n" for n
    using ih1 by (simp add: ep)
  have b: "(sv sc item = None) = (sv s item = None)"
    using ih1 by (auto simp: ep)
  show ?case unfolding run using ih2 a b by simp
qed

lemma getValues_pairs:
  "acc = storeAccessor \<Longrightarrow> consistent s \<Longrightarrow> distinct (map field (iterateDefinitions defs)) \<Longrightarrow>
     fst (getValues acc defs s) = map (\<lambda>m. (key m, value_of (sv s m))) (iterateDefinitions defs)"
  "acc = storeAccessor \<Longrightarrow> consistent s \<Longrightarrow> distinct (map field (iterateDependents deps)) \<Longrightarrow>
     field item \<notin> field ` set (iterateDependents deps) \<Longrightarrow>
     fst (getValues_dependents acc item deps s) =
       map (\<lambda>m. (key m, value_of (sv s m))) (iterateDependents deps)"
proof (induction acc defs s and acc item deps s rule: getValues_getValues_dependents.induct)
  case (1 acc s)
  then show ?case by simp
next
  case (2 acc item definitions s)
  note acc = \<open>acc = storeAccessor\<close>
  define s1 where "s1 = snd (findValue acc item s)"
  define s2 where "s2 = snd (getValues acc [item] s)"
  let ?ch = "case dependents item of None \<Rightarrow> [] | Some ds \<Rightarrow> iterateDependents ds"
  have k1: "consistent s1" using "2.prems" by (simp add: s1_def consistent_getCategory)
  have s1s: "sv s1 = sv s" using acc by (simp add: s1_def)
  have v: "fst (findValue acc item s) = value_of (sv s item)"
    unfolding acc by (rule findValue_value_of)
  have r2: "consistent s2 \<and> sv s2 = sv s"
    unfolding s2_def using getValues_restore(1) [OF acc "2.prems"(2)] by blast
  have d_item: "field item \<notin> field ` set ?ch"
    and d_ch: "distinct (map field ?ch)"
    and d_rest: "distinct (map field (iterateDefinitions definitions))"
    using "2.prems"(3) by auto
  have s2_ih: "s2 = snd (case dependents item of None \<Rightarrow> ([], snd (findValue acc item s))
      | Some deps \<Rightarrow>
          let (ys, s') = getValues_dependents acc item deps (snd (findValue acc item s))
          in (ys, setValue acc item (fst (findValue acc item s)) s'))"
    by (simp only: s2_def getValues_single(2) split_beta Let_def snd_conv split: option.splits) simp
  have rest: "fst (getValues acc definitions s2) =
      map (\<lambda>m. (key m, value_of (sv s2 m))) (iterateDefinitions definitions)"
    unfolding s2_ih
    by (rule "2.IH"(2) [OF refl prod.collapse refl prod.collapse acc _ d_rest])
       (use r2 in \<open>simp only: s2_ih\<close>)
  have single: "fst (getValues acc [item] s) =
      (key item, value_of (sv s item)) # map (\<lambda>m. (key m, value_of (sv s m))) ?ch"
  proof (cases "dependents item")
    case None
    then show ?thesis by (simp only: getValues_single(1) v option.case list.map)
  next
    case (Some deps)
    have "fst (getValues_dependents acc item deps s1) =
        map (\<lambda>m. (key m, value_of (sv s1 m))) (iterateDependents deps)"
      unfolding s1_def
    proof (rule "2.IH"(1) [OF refl prod.collapse Some acc])
      show "consistent (snd (findValue acc item s))" using k1 unfolding s1_def .
      show "distinct (map field (iterateDependents deps))"
        using d_ch unfolding Some option.case .
      show "field item \<notin> field ` set (iterateDependents deps)"
        using d_item unfolding Some option.case .
    qed
    then show ?thesis
      by (simp only: getValues_single(1) v Some option.case s1_def [symmetric] s1s)
  qed
  have "fst (getValues acc (item # definitions) s) =
      fst (getValues acc [item] s) @ fst (getValues acc definitions s2)"
    unfolding s2_def by (rule getValues_Cons(1))
  also have "\<dots> = ((key item, value_of (sv s item)) # map (\<lambda>m. (key m, value_of (sv s m))) ?ch)
      @ map (\<lambda>m. (key m, value_of (sv s m))) (iterateDefinitions definitions)"
    using r2 by (simp only: single rest)
  finally show ?case by simp
next
  case (3 acc item s)
  then show ?case by simp
next
  case (4 acc item dependent deps s)
  note acc = \<open>acc = storeAccessor\<close>
  define sp where "sp = setValue acc item (fst dependent) s"
  define sc where "sc = snd (getValues acc (snd dependent) sp)"
  let ?ch = "iterateDefinitions (snd dependent)"
  have kp: "consistent sp" using "4.prems" by (simp add: sp_def setValue_store(1))
  have ep: "sv sp n = (if field n = field item \<and> sv s item \<noteq> None then Some (fst dependent)
      else sv s n)" for n
    unfolding sp_def using stored_setValue [OF "4.prems"(2), of item "fst dependent" n] acc by simp
  have rc: "consistent sc \<and> sv sc = sv sp"
    unfolding sc_def using getValues_restore(1) [OF acc kp] by blast
  have d_ch: "distinct (map field ?ch)"
    and d_rest: "distinct (map field (iterateDependents deps))"
    using "4.prems"(3) by auto
  have i_ch: "field item \<notin> field ` set ?ch"
    and i_rest: "field item \<notin> field ` set (iterateDependents deps)"
    using "4.prems"(4) by auto
  have same_ch: "m \<in> set ?ch \<Longrightarrow> sv sp m = sv s m" for m
  proof -
    assume "m \<in> set ?ch"
    then have "field m \<in> field ` set ?ch" by (rule imageI)
    with i_ch have "field m \<noteq> field item" by metis
    then show ?thesis by (simp add: ep)
  qed
  have same_rest: "m \<in> set (iterateDependents deps) \<Longrightarrow> sv sp m = sv s m" for m
  proof -
    assume "m \<in> set (iterateDependents deps)"
    then have "field m \<in> field ` set (iterateDependents deps)" by (rule imageI)
    with i_rest have "field m \<noteq> field item" by metis
    then show ?thesis by (simp add: ep)
  qed
  have ch: "fst (getValues acc (snd dependent) sp) = map (\<lambda>m. (key m, value_of (sv sp m))) ?ch"
    unfolding sp_def using "4.IH"(1) [OF acc _ d_ch] kp by (simp add: sp_def)
  have rest: "fst (getValues_dependents acc item deps sc) =
      map (\<lambda>m. (key m, value_of (sv sc m))) (iterateDependents deps)"
    unfolding sc_def sp_def
    by (rule "4.IH"(2) [OF refl prod.collapse acc _ d_rest i_rest])
       (use rc in \<open>simp add: sc_def sp_def\<close>)
  have "fst (getValues_dependents acc item (dependent # deps) s) =
      fst (getValues acc (snd dependent) sp) @ fst (getValues_dependents acc item deps sc)"
    unfolding sc_def sp_def by (rule getValues_dependents_Cons)
  also have "\<dots> = map (\<lambda>m. (key m, value_of (sv sp m))) ?ch
      @ map (\<lambda>m. (key m, value_of (sv sp m))) (iterateDependents deps)"
    using rc by (simp only: ch rest)
  also have "\<dots> = map (\<lambda>m. (key m, value_of (sv s m))) ?ch
      @ map (\<lambda>m. (key m, value_of (sv s m))) (iterateDependents deps)"
    using same_ch same_rest by simp
  finally show ?case by simp
qed

lemma fold_assign_last:
  "distinct (map fst ps) \<Longrightarrow> (k, v) \<in> set ps \<Longrightarrow>
     fold (\<lambda>(k, v) obj. obj(k \<mapsto> v)) ps obj k = Some v"
proof (induction ps arbitrary: obj)
  case Nil
  then show ?case by simp
next
  case (Cons p ps)
  have keep: "k \<notin> fst ` set qs \<Longrightarrow> fold (\<lambda>(k, v) obj. obj(k \<mapsto> v)) qs obj' k = obj' k"
    for qs :: "('a \<times> 'b) list" and obj'
    by (induction qs arbitrary: obj') (auto simp: split_beta)
  show ?case
  proof (cases "(k, v) \<in> set ps")
    case True
    with Cons show ?thesis by simp
  next
    case False
    with Cons.prems(2) have p: "p = (k, v)" by simp
    have "fst p \<notin> set (map fst ps)" using Cons.prems(1) by simp
    then have "k \<notin> fst ` set ps" using p by simp
    then have "fold (\<lambda>(k, v) obj. obj(k \<mapsto> v)) ps (obj(k \<mapsto> v)) k = (obj(k \<mapsto> v)) k"
      by (rule keep)
    moreover have "fold (\<lambda>(k, v) obj. obj(k \<mapsto> v)) (p # ps) obj =
        fold (\<lambda>(k, v) obj. obj(k \<mapsto> v)) ps (obj(k \<mapsto> v))"
      unfolding p by (simp only: fold_simps prod.case)
    ultimately show ?thesis by (simp only: fun_upd_same)
  qed
qed

lemma fold_assign_dom:
  "dom (fold (\<lambda>(k, v) obj. obj(k \<mapsto> v)) ps obj) = dom obj \<union> fst ` set ps"
  by (induction ps arbitrary: obj) (auto simp: split_beta)

lemma getCurrentSettings_dom: "dom (fst (getCurrentSettings acc s)) = UNIV"
proof -
  have "dom (fst (getCurrentSettings acc s)) = fst ` set (fst (getValues acc definitionParams s))"
    by (simp add: getCurrentSettings_def split_beta fold_assign_dom)
  also have "\<dots> = set (map fst (fst (getValues acc definitionParams s)))" by simp
  also have "\<dots> = set (map key (iterateDefinitions definitionParams))"
    by (simp only: getValues_keys(1))
  also have "\<dots> = UNIV"
    unfolding definitionParams_keys using OptimizationKey_values_all
    by (auto simp: OptimizationKey_values_def)
  finally show ?thesis .
qed

lemma definitionParams_fields:
  "distinct (map field (iterateDefinitions definitionParams))"
  by (simp add: definitionParams_def field_def)

lemma getCurrentSettings_store:
  assumes "consistent s" and "m \<in> set (iterateDefinitions definitionParams)"
  shows "fst (getCurrentSettings storeAccessor s) (key m) = Some (value_of (sv s m))"
proof -
  let ?ps = "fst (getValues storeAccessor definitionParams s)"
  have ps: "?ps = map (\<lambda>m. (key m, value_of (sv s m))) (iterateDefinitions definitionParams)"
    by (rule getValues_pairs(1) [OF refl assms(1) definitionParams_fields])
  have "map fst ?ps = map key (iterateDefinitions definitionParams)"
    by (rule getValues_keys(1))
  then have d: "distinct (map fst ?ps)"
    by (simp only: definitionParams_keys) simp
  have "(key m, value_of (sv s m)) \<in> set ?ps"
    unfolding ps set_map using assms(2) by blast
  from fold_assign_last [OF d this] show ?thesis
    by (simp add: getCurrentSettings_def split_beta)
qed

section \<open>Round trip through the store\<close>

lemma flushed_view:
  assumes "consistent s" and "modifiedCategories s = []"
  shows "view storeAccessor s = host s"
  using assms by (auto simp: view_store fun_eq_iff consistent_def in_sync_def split: option.splits)

lemma flushed_stored:
  "consistent s \<Longrightarrow> modifiedCategories s = [] \<Longrightarrow> sv s n = durable (host s) n"
  by (simp add: stored_def durable_def flushed_view)

lemma fold_updateCategory_host:
  "host (fold (updateCategory storeAccessor) cs s) c =
     (if c \<in> set cs \<and> categoryCache s c \<noteq> None then the (categoryCache s c) else host s c)"
  by (induction cs arbitrary: s) (auto split: option.splits)

lemma fold_updateCategory_modified [simp]:
  "modifiedCategories (fold (updateCategory acc) cs s) = modifiedCategories s"
  by (induction cs arbitrary: s) simp_all

lemma fold_updateCategory_view [simp]:
  "view storeAccessor (fold (updateCategory storeAccessor) cs s) = view storeAccessor s"
  by (induction cs arbitrary: s) simp_all

lemma writeBackAll_store:
  assumes "consistent s"
  shows "consistent (writeBackAllCategories storeAccessor s)"
    and "view storeAccessor (writeBackAllCategories storeAccessor s) = view storeAccessor s"
    and "modifiedCategories (writeBackAllCategories storeAccessor s) = []"
proof -
  let ?s = "fold (updateCategory storeAccessor) (modifiedCategories s) s"
  have "in_sync (writeBackAllCategories storeAccessor s)"
    using assms
    by (auto simp: in_sync_def writeBackAllCategories_def fold_updateCategory_host consistent_def)
  then show "consistent (writeBackAllCategories storeAccessor s)"
    by (simp add: consistent_def dirty_cached_writeBackAll)
  have "view storeAccessor (X\<lparr>modifiedCategories := []\<rparr>) = view storeAccessor X" for X
    by (simp add: view_def fun_eq_iff split: option.splits)
  then show "view storeAccessor (writeBackAllCategories storeAccessor s) = view storeAccessor s"
    by (simp only: writeBackAllCategories_def fold_updateCategory_view)
  show "modifiedCategories (writeBackAllCategories storeAccessor s) = []"
    by (simp add: writeBackAllCategories_def)
qed

lemma optimize_store:
  assumes "consistent s"
  shows "consistent (optimize storeAccessor t s)"
    and "modifiedCategories (optimize storeAccessor t s) = []"
    and "sv (optimize storeAccessor t s) = sv (setValues storeAccessor t definitionParams s)"
proof -
  let ?s = "setValues storeAccessor t definitionParams s"
  have k: "consistent ?s" using frame_setValues [OF assms] by (rule frameD(1))
  show "consistent (optimize storeAccessor t s)"
    unfolding optimize_def by (rule writeBackAll_store(1) [OF k])
  show "modifiedCategories (optimize storeAccessor t s) = []"
    unfolding optimize_def by (rule writeBackAll_store(3) [OF k])
  show "sv (optimize storeAccessor t s) = sv ?s"
    unfolding optimize_def by (simp add: stored_def fun_eq_iff writeBackAll_store(2) [OF k])
qed

lemma consistent_new [simp]: "consistent (new_Optimizer store)"
  by (simp add: consistent_def dirty_cached_def in_sync_def new_Optimizer_def)

lemma stored_new: "sv (new_Optimizer store) n = durable store n"
  by (simp add: stored_def durable_def view_def new_Optimizer_def)

lemma shipped_member:
  "fps_param \<in> set (iterateDefinitions definitionParams)"
  "videoBitrate_param \<in> set (iterateDefinitions definitionParams)"
  "quality_param \<in> set (iterateDefinitions definitionParams)"
  "hd definitionParams \<in> set (iterateDefinitions definitionParams)"
  by (simp_all add: definitionParams_def fps_param_def videoBitrate_param_def quality_param_def)

lemma example_durable:
  "durable example_store fps_param = Some (Str ''30'')"
  "durable example_store videoBitrate_param = Some (Num 1000)"
  "durable example_store quality_param = None"
  "durable example_store (hd definitionParams) = Some (Str ''Simple'')"
  by (simp_all add: durable_def accessor_findSetting_def fps_param_def videoBitrate_param_def
        quality_param_def definitionParams_def)




section \<open>Reading every key\<close>

lemma clean_getCategory: "clean s \<Longrightarrow> clean (snd (getCategory acc c False s))"
  by (simp add: clean_def dirty_cached_getCategory)

lemma clean_setValue:
  assumes "dependents item \<noteq> None" and "clean s"
  shows "clean (setValue acc item v s)"
proof -
  obtain deps where deps: "dependents item = Some deps" using assms(1) by blast
  let ?c = "category item"
  let ?cs = "dependent_categories deps"
  let ?s0 = "emit (SetValueCalled ?c (key item) v) s"
  let ?s1 = "snd (getCategory acc ?c False ?s0)"
  have c1: "clean ?s1" using assms(2) by (simp add: clean_def dirty_cached_getCategory)
  show ?thesis
  proof (cases "accessor_findSetting (view acc s ?c) (subCategory item) (setting item)")
    case None
    then show ?thesis using c1 by (simp add: setValue_def split_beta clean_def)
  next
    case (Some input)
    show ?thesis
    proof (cases "inputValue input = v")
      case True
      with Some c1 show ?thesis by (simp add: setValue_def split_beta)
    next
      case False
      let ?s2 = "fold (writeBackCategory acc) ?cs ?s1"
      let ?s3 = "assign_value item v (emit (ValueChanged ?c (key item) (inputValue input) v) ?s2)"
      let ?s4 = "?s3\<lparr>modifiedCategories := set_add ?c (modifiedCategories ?s3)\<rparr>"
      let ?s5 = "writeBackCategory acc ?c ?s4"
      have run: "setValue acc item v s = fold forgetCategoryCache ?cs ?s5"
        using deps Some False by (simp add: setValue_def split_beta Let_def)
      have i1: "dirty_cached ?s1" using c1 by (simp add: clean_def)
      have m5: "modifiedCategories ?s5 = []"
        using c1 by (simp add: clean_def set_add_def)
      have i5: "dirty_cached ?s5"
        by (rule dirty_cached_writeBackCategory)
           (use i1 in \<open>auto simp: dirty_cached_def set_add_def\<close>)
      have "modifiedCategories (fold forgetCategoryCache ?cs ?s5) =
          filter (\<lambda>c. c \<notin> set ?cs) (modifiedCategories ?s5)"
        by (rule fold_forget_modified [OF i5])
      then have "modifiedCategories (fold forgetCategoryCache ?cs ?s5) = []"
        by (simp only: m5) simp
      moreover have "dirty_cached (fold forgetCategoryCache ?cs ?s5)"
        using i5 by (rule dirty_cached_fold_forget)
      ultimately show ?thesis unfolding run clean_def by blast
    qed
  qed
qed

lemma getValues_clean:
  "clean s \<Longrightarrow> clean (snd (getValues acc defs s))"
  "dependents item \<noteq> None \<Longrightarrow> clean s \<Longrightarrow> clean (snd (getValues_dependents acc item deps s))"
proof (induction acc defs s and acc item deps s rule: getValues_getValues_dependents.induct)
  case (1 acc s)
  then show ?case by simp
next
  case (2 acc item definitions s)
  let ?x = "findValue acc item s"
  have p1: "clean (snd ?x)" using "2.prems" by (simp add: clean_getCategory)
  show ?case
  proof (cases "dependents item")
    case None
    with "2.IH"(2) [OF refl prod.collapse refl prod.collapse] p1 show ?thesis
      unfolding getValues_Cons_state by (simp add: None del: findValue_fields)
  next
    case (Some deps)
    have d: "dependents item \<noteq> None" using Some by simp
    have "clean (snd (getValues_dependents acc item deps (snd ?x)))"
      using "2.IH"(1) [OF refl prod.collapse Some d] p1 by (simp del: findValue_fields)
    then have "clean (setValue acc item (fst ?x) (snd (getValues_dependents acc item deps (snd ?x))))"
      by (rule clean_setValue [OF d])
    with "2.IH"(2) [OF refl prod.collapse refl prod.collapse] show ?thesis
      unfolding getValues_Cons_state by (simp add: Some split_beta del: findValue_fields)
  qed
next
  case (3 acc item s)
  then show ?case by simp
next
  case (4 acc item dependent deps s)
  have "clean (setValue acc item (fst dependent) s)"
    using "4.prems" by (rule clean_setValue)
  then have "clean (snd (getValues acc (snd dependent) (setValue acc item (fst dependent) s)))"
    by (rule "4.IH"(1))
  then show ?case
    unfolding getValues_dependents_Cons_state
    by (rule "4.IH"(2) [OF refl prod.collapse "4.prems"(1)])
qed



section \<open>What a write changes\<close>

lemma changed_keys_simps [simp]:
  "changed_keys [] = {}"
  "changed_keys (xs @ ys) = changed_keys xs \<union> changed_keys ys"
  "changed_keys (ValueChanged c k old new # xs) = insert k (changed_keys xs)"
  "changed_keys (SetSettings c data # xs) = changed_keys xs"
  "changed_keys (GetSettingsFormData c # xs) = changed_keys xs"
  "changed_keys (SetValueCalled c k v # xs) = changed_keys xs"
  "changed_keys (KeyNotFound k # xs) = changed_keys xs"
  "changed_keys (CacheForgotten c # xs) = changed_keys xs"
  by (auto simp: changed_keys_def)

lemma extends_refl [simp]: "extends K s s"
  by (simp add: extends_def)

lemma extends_trans: "extends K s s' \<Longrightarrow> extends K s' s'' \<Longrightarrow> extends K s s''"
  by (auto simp: extends_def)

lemma extends_mono: "extends K s s' \<Longrightarrow> K \<subseteq> K' \<Longrightarrow> extends K' s s'"
  by (auto simp: extends_def)

lemma extends_during: "extends K s s' \<Longrightarrow> trace s' = trace s @ during s s'"
  by (auto simp: extends_def during_def)

lemma during_trans:
  "extends K s s' \<Longrightarrow> extends K' s' s'' \<Longrightarrow> during s s'' = during s s' @ during s' s''"
  by (auto simp: extends_def during_def)

lemma extends_emit: "changed_keys [e] \<subseteq> K \<Longrightarrow> extends K s (emit e s)"
  by (simp add: extends_def)

lemma extends_getCategory: "extends K s (snd (getCategory acc c False s))"
  by (simp add: extends_def)

lemma extends_writeBackCategory: "extends K s (writeBackCategory acc c s)"
  by (auto simp: extends_def split: option.splits)

lemma extends_forgetCategoryCache: "extends K s (forgetCategoryCache c s)"
  by (auto simp: extends_def)

lemma extends_fold_writeBack: "extends K s (fold (writeBackCategory acc) cs s)"
proof (induction cs arbitrary: s)
  case Nil
  then show ?case by simp
next
  case (Cons c cs)
  have "extends K s (writeBackCategory acc c s)" by (rule extends_writeBackCategory)
  then show ?case using Cons [of "writeBackCategory acc c s"] by (simp add: extends_trans)
qed

lemma extends_fold_forget: "extends K s (fold forgetCategoryCache cs s)"
proof (induction cs arbitrary: s)
  case Nil
  then show ?case by simp
next
  case (Cons c cs)
  have "extends K s (forgetCategoryCache c s)" by (rule extends_forgetCategoryCache)
  then show ?case using Cons [of "forgetCategoryCache c s"] by (simp add: extends_trans)
qed

lemma extends_setValue: "extends {key item} s (setValue acc item v s)"
proof -
  let ?K = "{key item}"
  let ?c = "category item"
  let ?s0 = "emit (SetValueCalled ?c (key item) v) s"
  let ?s1 = "snd (getCategory acc ?c False ?s0)"
  have e1: "extends ?K s ?s1"
    by (rule extends_trans [OF extends_emit extends_getCategory]) simp
  show ?thesis
  proof (cases "accessor_findSetting (view acc s ?c) (subCategory item) (setting item)")
    case None
    have "extends ?K ?s1 (emit (KeyNotFound (key item)) ?s1)" by (rule extends_emit) simp
    with e1 have "extends ?K s (emit (KeyNotFound (key item)) ?s1)" by (rule extends_trans)
    then show ?thesis using None by (simp add: setValue_def split_beta)
  next
    case (Some input)
    show ?thesis
    proof (cases "inputValue input = v")
      case True
      with Some e1 show ?thesis by (simp add: setValue_def split_beta)
    next
      case False
      define cs where "cs = (case dependents item of None \<Rightarrow> [] | Some deps \<Rightarrow> dependent_categories deps)"
      define s2 where "s2 = fold (writeBackCategory acc) cs ?s1"
      define s4 where "s4 = (assign_value item v (emit (ValueChanged ?c (key item) (inputValue input) v) s2))
          \<lparr>modifiedCategories := set_add ?c (modifiedCategories
             (assign_value item v (emit (ValueChanged ?c (key item) (inputValue input) v) s2)))\<rparr>"
      have e2: "extends ?K ?s1 s2" unfolding s2_def by (rule extends_fold_writeBack)
      have e4: "extends ?K s2 s4" by (simp add: extends_def s4_def)
      have e04: "extends ?K s s4" using e1 e2 e4 by (blast intro: extends_trans)
      show ?thesis
      proof (cases "dependents item")
        case None
        then have "setValue acc item v s = s4"
          using Some False by (simp add: setValue_def split_beta Let_def s4_def s2_def cs_def)
        with e04 show ?thesis by simp
      next
        case d: (Some deps)
        have "setValue acc item v s = fold forgetCategoryCache cs (writeBackCategory acc ?c s4)"
          using Some False d by (simp add: setValue_def split_beta Let_def s4_def s2_def cs_def)
        moreover have "extends ?K s4 (fold forgetCategoryCache cs (writeBackCategory acc ?c s4))"
          by (rule extends_trans [OF extends_writeBackCategory extends_fold_forget])
        ultimately show ?thesis using e04 by (simp add: extends_trans)
      qed
    qed
  qed
qed

lemma setValue_changes:
  assumes "stored acc s item = Some old" and "old \<noteq> v"
  shows "ValueChanged (category item) (key item) old v \<in> set (during s (setValue acc item v s))"
    and "dirty_cached s \<Longrightarrow> dependents item \<noteq> None \<Longrightarrow>
         \<exists>data. SetSettings (category item) data \<in> set (during s (setValue acc item v s))"
proof -
  let ?c = "category item"
  let ?s0 = "emit (SetValueCalled ?c (key item) v) s"
  let ?s1 = "snd (getCategory acc ?c False ?s0)"
  obtain input where Some: "accessor_findSetting (view acc s ?c) (subCategory item) (setting item)
      = Some input" and old: "inputValue input = old"
    using assms(1) by (auto simp: stored_def)
  define cs where "cs = (case dependents item of None \<Rightarrow> [] | Some deps \<Rightarrow> dependent_categories deps)"
  define s2 where "s2 = fold (writeBackCategory acc) cs ?s1"
  define s3 where "s3 = emit (ValueChanged ?c (key item) old v) s2"
  define s4 where "s4 = (assign_value item v s3)
          \<lparr>modifiedCategories := set_add ?c (modifiedCategories (assign_value item v s3))\<rparr>"
  define s5 where "s5 = (case dependents item of None \<Rightarrow> s4
      | Some deps \<Rightarrow> writeBackCategory acc ?c s4)"
  have run: "setValue acc item v s = fold forgetCategoryCache cs s5"
    using Some old assms(2)
    by (simp add: setValue_def split_beta Let_def s5_def s4_def s3_def s2_def cs_def
          split: option.splits)
  have e1: "extends UNIV s ?s1"
    by (rule extends_trans [OF extends_emit extends_getCategory]) simp
  have e2: "extends UNIV ?s1 s2" unfolding s2_def by (rule extends_fold_writeBack)
  have e02: "extends UNIV s s2" using e1 e2 by (rule extends_trans)
  have e3: "extends UNIV s2 s3" unfolding s3_def by (rule extends_emit) simp
  have e03: "extends UNIV s s3" using e02 e3 by (rule extends_trans)
  have t4: "trace s4 = trace s3" by (simp add: s4_def)
  have e5: "extends UNIV s4 s5"
    by (auto simp: s5_def extends_writeBackCategory split: option.splits)
  have e6: "extends UNIV s5 (setValue acc item v s)"
    unfolding run by (rule extends_fold_forget)
  have "during s2 s3 = [ValueChanged ?c (key item) old v]"
    by (simp add: during_def s3_def)
  then have "during s s3 = during s s2 @ [ValueChanged ?c (key item) old v]"
    using during_trans [OF e02 e3] by simp
  then have in3: "ValueChanged ?c (key item) old v \<in> set (during s s3)" by simp
  have d4: "during s s4 = during s s3" by (simp add: during_def t4)
  have e04: "extends UNIV s s4" using e03 t4 by (simp add: extends_def)
  have d5: "during s s5 = during s s4 @ during s4 s5" using e04 e5 by (rule during_trans)
  have e05: "extends UNIV s s5" using e04 e5 by (rule extends_trans)
  have d6: "during s (setValue acc item v s) = during s s5 @ during s5 (setValue acc item v s)"
    using e05 e6 by (rule during_trans)
  show "ValueChanged ?c (key item) old v \<in> set (during s (setValue acc item v s))"
    using in3 by (simp add: d6 d5 d4)
  show "\<exists>data. SetSettings ?c data \<in> set (during s (setValue acc item v s))"
    if inv: "dirty_cached s" and dep: "dependents item \<noteq> None"
  proof -
    have c4: "categoryCache s4 ?c \<noteq> None"
      by (simp add: s4_def s3_def s2_def split: option.splits)
    then obtain data where data: "categoryCache s4 ?c = Some data" by blast
    have m4: "?c \<in> set (modifiedCategories s4)" by (simp add: s4_def set_add_def)
    have s5: "s5 = writeBackCategory acc ?c s4" using dep by (auto simp: s5_def)
    have "trace s5 = trace s4 @ [SetSettings ?c data]"
      using data m4 by (simp add: s5)
    then have "during s4 s5 = [SetSettings ?c data]" by (simp add: during_def)
    then show ?thesis by (auto simp: d6 d5)
  qed
qed

lemma extends_setValues:
  "extends UNIV s (setValues acc t defs s)"
  by (rule setValues_preserves(1) [where P = "\<lambda>acc s'. extends UNIV s s'"])
     (auto intro: extends_trans extends_getCategory extends_mono [OF extends_setValue])

lemma extends_setValues_dependents:
  "extends UNIV s (setValues_dependents acc t item deps s)"
  by (rule setValues_preserves(2) [where P = "\<lambda>acc s'. extends UNIV s s'"])
     (auto intro: extends_trans extends_getCategory extends_mono [OF extends_setValue])

lemma during_mono:
  assumes "extends K s s'" and "extends K' s' s''"
  shows "set (during s s') \<subseteq> set (during s s'')"
    and "set (during s' s'') \<subseteq> set (during s s'')"
proof -
  have "during s s'' = during s s' @ during s' s''"
    using assms by (rule during_trans)
  then show "set (during s s') \<subseteq> set (during s s'')"
    and "set (during s' s'') \<subseteq> set (during s s'')"
    by simp_all
qed

lemma setValues_pivot_event:
  assumes deps: "dependents item = Some ((sel, ch) # deps)"
    and touched: "isDependValues t ch"
    and old: "stored acc s item = Some old"
    and ne: "old \<noteq> sel"
    and inv: "dirty_cached s"
  shows "ValueChanged (category item) (key item) old sel
           \<in> set (during s (setValues acc t (item # defs) s))"
    and "\<exists>data. SetSettings (category item) data
           \<in> set (during s (setValues acc t (item # defs) s))"
proof -
  define sA where "sA = snd (findValue acc item s)"
  define sB where "sB = setValue acc item sel sA"
  define sC where "sC = setValues acc t ch sB"
  define sD where "sD = setValues_dependents acc t item deps sC"
  define v' where "v' = (case t (key item) of Some x \<Rightarrow> x | None \<Rightarrow> fst (findValue acc item s))"
  define sE where "sE = setValue acc item v' sD"
  have run: "setValues acc t (item # defs) s = setValues acc t defs sE"
    using deps touched
    by (simp add: sE_def sD_def sC_def sB_def sA_def v'_def split_beta Let_def
          del: findValue_fields)
  have eA: "extends UNIV s sA" by (simp add: sA_def extends_getCategory)
  have eB: "extends UNIV sA sB" unfolding sB_def by (rule extends_mono [OF extends_setValue]) simp
  have eC: "extends UNIV sB sC" unfolding sC_def by (rule extends_setValues)
  have eD: "extends UNIV sC sD" unfolding sD_def by (rule extends_setValues_dependents)
  have eE: "extends UNIV sD sE" unfolding sE_def by (rule extends_mono [OF extends_setValue]) simp
  have eF: "extends UNIV sE (setValues acc t (item # defs) s)"
    unfolding run by (rule extends_setValues)
  have eBF: "extends UNIV sB (setValues acc t (item # defs) s)"
    using eC eD eE eF by (blast intro: extends_trans)
  have eAF: "extends UNIV sA (setValues acc t (item # defs) s)"
    using eB eBF by (rule extends_trans)
  have sub: "set (during sA sB) \<subseteq> set (during s (setValues acc t (item # defs) s))"
    using during_mono(1) [OF eB eBF] during_mono(2) [OF eA eAF] by blast
  have oldA: "stored acc sA item = Some old" using old by (simp add: sA_def)
  have invA: "dirty_cached sA" using inv by (simp add: sA_def dirty_cached_getCategory)
  have d: "dependents item \<noteq> None" using deps by simp
  show "ValueChanged (category item) (key item) old sel
           \<in> set (during s (setValues acc t (item # defs) s))"
    using setValue_changes(1) [OF oldA ne] sub unfolding sB_def by blast
  show "\<exists>data. SetSettings (category item) data
           \<in> set (during s (setValues acc t (item # defs) s))"
    using setValue_changes(2) [OF oldA ne invA d] sub unfolding sB_def by blast
qed

lemma shipped_head:
  "\<exists>ch rest. definitionParams = hd definitionParams # rest
     \<and> dependents (hd definitionParams) = Some [(Str ''Advanced'', ch)]
     \<and> videoBitrate_param \<in> set (iterateDefinitions ch)"
  by (simp add: definitionParams_def videoBitrate_param_def)

lemma shipped_head_fields:
  "category (hd definitionParams) = Output" "key (hd definitionParams) = outputMode"
  by (simp_all add: definitionParams_def)

lemma only_reads_during:
  assumes "only_reads acc s s'"
  shows "list_all quiet (during s s')"
  using assms by (auto simp: only_reads_def during_def)

lemma advanced_pivots:
  "n \<in> set (iterateDefinitions definitionParams) \<Longrightarrow> dependents n = Some deps \<Longrightarrow>
     (sel, ch) \<in> set deps \<Longrightarrow> durable advanced_store n = Some sel"
  by (auto simp: definitionParams_def durable_def accessor_findSetting_def advanced_store_def)




end
